theory Spec2Isabelle
  imports Main "HOL-Library.Word"
begin

unbundle bit_operations_syntax

section \<open>XEX mode over a random-access block device (xex.c)\<close>

text \<open>
  The C types: \<open>uint8_t\<close> and \<open>uint32_t\<close> are words whose arithmetic wraps around.
  A byte array is a list of bytes; the arrays of xex.c all have 16 entries (the
  combined key has 32), and the theorems below say so where it matters.
\<close>

type_synonym uint8_t = "8 word"
type_synonym uint32_t = "32 word"

subsection \<open>External collaborators\<close>

text \<open>
  The block cipher of aes.c is not part of xex.c. It is a parameter of the model:
  the three functions xex.c calls, each returning what the C function writes through
  its first argument.
\<close>

record aes_primitive =
  aesExpandKey :: "uint8_t list \<Rightarrow> uint8_t list"
  aesEncrypt :: "uint8_t list \<Rightarrow> uint8_t list \<Rightarrow> uint8_t list"
  aesDecrypt :: "uint8_t list \<Rightarrow> uint8_t list \<Rightarrow> uint8_t list"

text \<open>
  The hypothesis on the primitive: on 16-byte blocks it produces 16-byte blocks, and
  decryption inverts encryption under the same expanded key.
\<close>

definition aes_inverts :: "aes_primitive \<Rightarrow> bool" where
  "aes_inverts aes \<longleftrightarrow>
     (\<forall>b k. length b = 16 \<longrightarrow>
        length (aesEncrypt aes b k) = 16 \<and> length (aesDecrypt aes b k) = 16 \<and>
        aesDecrypt aes (aesEncrypt aes b k) k = b)"

text \<open>
  Modelled from the spec: \<open>xor16Bytes\<close> of endian.c/common code, absent from the
  sources at hand; the spec describes it as the 16-byte XOR of two buffers in place.
  The result is the new content of the first buffer.
\<close>

definition xor16Bytes :: "uint8_t list \<Rightarrow> uint8_t list \<Rightarrow> uint8_t list" where
  "xor16Bytes r op1 = fold (\<lambda>i r. r[i := (r ! i) XOR (op1 ! i)]) [0..<16] r"

text \<open>
  Modelled from the spec: \<open>writeU32LittleEndian\<close> of endian.c, absent from the
  sources at hand; the spec describes it as the little-endian 32-bit write into a byte
  buffer. The result is the new content of the buffer: bytes 0 to 3 are replaced.
\<close>

definition writeU32LittleEndian :: "uint8_t list \<Rightarrow> uint32_t \<Rightarrow> uint8_t list" where
  "writeU32LittleEndian out v =
     out[0 := ucast v, 1 := ucast (drop_bit 8 v), 2 := ucast (drop_bit 16 v),
         3 := ucast (drop_bit 24 v)]"

subsection \<open>The GF doubler\<close>

text \<open>
  One iteration of the loop of \<open>doubleInGF\<close>, on the pair of the array and
  \<open>last_bit\<close>; \<open>temp\<close> is the local of the source.
\<close>

definition doubleInGF_step :: "nat \<Rightarrow> uint8_t list \<times> uint8_t \<Rightarrow> uint8_t list \<times> uint8_t" where
  "doubleInGF_step i st =
     (case st of (op1, last_bit) \<Rightarrow>
        let temp = (op1 ! i) AND 0x80;
            op1 = op1[i := push_bit 1 (op1 ! i)];
            op1 = op1[i := (op1 ! i) OR last_bit];
            last_bit = drop_bit 7 temp
        in (op1, last_bit))"

text \<open>
  \<open>doubleInGF\<close>: the loop over \<open>i = 0, ..., 15\<close>, then \<open>last_bit\<close> negated as an
  8-bit value (0 stays 0, 1 becomes 0xff) and masked into byte 0.
\<close>

definition doubleInGF :: "uint8_t list \<Rightarrow> uint8_t list" where
  "doubleInGF op1 =
     (case fold doubleInGF_step [0..<16] (op1, 0) of (op1, last_bit) \<Rightarrow>
        let last_bit = - last_bit
        in op1[0 := (op1 ! 0) XOR (0x87 AND last_bit)])"

subsection \<open>The XEX cipher\<close>

text \<open>
  \<open>xexEnDecrypt\<close> works on buffers it is handed by pointer, and \<open>out\<close> may be the
  same buffer as \<open>in\<close>. The memory is a function from pointers to the content of the
  16-byte buffer each designates: two pointers alias exactly when they are equal. The
  locals \<open>expanded_key\<close>, \<open>delta\<close> and \<open>buffer\<close> are values; \<open>buffer\<close> starts
  with unspecified content, here zeros, and the copy loop overwrites all of it. The
  pointers are read and written in the order of the source's statements.
\<close>

type_synonym 'p mem = "'p \<Rightarrow> uint8_t list"

definition xexEnDecrypt ::
  "aes_primitive \<Rightarrow> 'p mem \<Rightarrow> 'p \<Rightarrow> 'p \<Rightarrow> 'p \<Rightarrow> uint8_t \<Rightarrow> 'p \<Rightarrow> 'p \<Rightarrow> uint8_t \<Rightarrow> 'p mem" where
  "xexEnDecrypt aes m out inp n seq tweak_key encrypt_key is_decrypt =
     (let expanded_key = aesExpandKey aes (m tweak_key);
          delta = aesEncrypt aes (m n) expanded_key;
          delta = fold (\<lambda>i delta. doubleInGF delta) [0..<unat seq] delta;
          buffer = fold (\<lambda>i buffer. buffer[i := m inp ! i]) [0..<16] (replicate 16 0);
          buffer = xor16Bytes buffer delta;
          expanded_key = aesExpandKey aes (m encrypt_key);
          m = (if is_decrypt \<noteq> 0
               then m(out := aesDecrypt aes buffer expanded_key)
               else m(out := aesEncrypt aes buffer expanded_key));
          m = m(out := xor16Bytes (m out) delta)
      in m)"

definition xexEncrypt ::
  "aes_primitive \<Rightarrow> 'p mem \<Rightarrow> 'p \<Rightarrow> 'p \<Rightarrow> 'p \<Rightarrow> uint8_t \<Rightarrow> 'p \<Rightarrow> 'p \<Rightarrow> 'p mem" where
  "xexEncrypt aes m out inp n seq tweak_key encrypt_key =
     xexEnDecrypt aes m out inp n seq tweak_key encrypt_key 0"

definition xexDecrypt ::
  "aes_primitive \<Rightarrow> 'p mem \<Rightarrow> 'p \<Rightarrow> 'p \<Rightarrow> 'p \<Rightarrow> uint8_t \<Rightarrow> 'p \<Rightarrow> 'p \<Rightarrow> 'p mem" where
  "xexDecrypt aes m out inp n seq tweak_key encrypt_key =
     xexEnDecrypt aes m out inp n seq tweak_key encrypt_key 1"

subsection \<open>The key state\<close>

text \<open>The two static arrays \<open>nv_storage_encrypt_key\<close> and \<open>nv_storage_tweak_key\<close>.\<close>

record key_state =
  nv_storage_encrypt_key :: "uint8_t list"
  nv_storage_tweak_key :: "uint8_t list"

definition setEncryptionKey :: "key_state \<Rightarrow> uint8_t list \<Rightarrow> key_state" where
  "setEncryptionKey ks inp =
     (let ks = fold (\<lambda>i ks. ks\<lparr>nv_storage_encrypt_key :=
                        (nv_storage_encrypt_key ks)[i := inp ! i]\<rparr>) [0..<16] ks;
          ks = fold (\<lambda>i ks. ks\<lparr>nv_storage_tweak_key :=
                        (nv_storage_tweak_key ks)[i := inp ! (i + 16)]\<rparr>) [0..<16] ks
      in ks)"

definition getEncryptionKey :: "key_state \<Rightarrow> uint8_t list \<Rightarrow> uint8_t list" where
  "getEncryptionKey ks out =
     (let out = fold (\<lambda>i out. out[i := nv_storage_encrypt_key ks ! i]) [0..<16] out;
          out = fold (\<lambda>i out. out[i + 16 := nv_storage_tweak_key ks ! i]) [0..<16] out
      in out)"

definition isEncryptionKeyNonZero :: "key_state \<Rightarrow> uint8_t" where
  "isEncryptionKeyNonZero ks =
     fold (\<lambda>i r. let r = r OR nv_storage_encrypt_key ks ! i;
                      r = r OR nv_storage_tweak_key ks ! i
                  in r) [0..<16] 0"

definition clearEncryptionKey :: "key_state \<Rightarrow> key_state" where
  "clearEncryptionKey ks =
     (let ks = fold (\<lambda>i ks.
                   let ks = ks\<lparr>nv_storage_tweak_key := (nv_storage_tweak_key ks)[i := 0xff]\<rparr>;
                       ks = ks\<lparr>nv_storage_encrypt_key := (nv_storage_encrypt_key ks)[i := 0xff]\<rparr>
                   in ks) [0..<16] ks;
          ks = fold (\<lambda>i ks.
                   let ks = ks\<lparr>nv_storage_tweak_key := (nv_storage_tweak_key ks)[i := 0]\<rparr>;
                       ks = ks\<lparr>nv_storage_encrypt_key := (nv_storage_encrypt_key ks)[i := 0]\<rparr>
                   in ks) [0..<16] ks
      in ks)"

subsection \<open>The raw non-volatile store\<close>

text \<open>
  Modelled from the spec: \<open>NonVolatileReturn\<close>, \<open>nonVolatileRead\<close> and
  \<open>nonVolatileWrite\<close> of hwinterface.h and its drivers, absent from the sources at
  hand. The spec gives the interface only: \<open>raw_read(buf, address, length) -> status\<close>,
  \<open>raw_write(buf, address, length) -> status\<close>, a success sentinel and opaque error
  codes, over a flat byte address space.

  The store is the content of every byte address, the rule by which the device answers
  an access (it may depend on the accesses made before, so bounds and transient faults
  are both covered) and the list of the accesses made so far. An access that fails
  leaves the content as it was.
\<close>

datatype NonVolatileReturn = NV_NO_ERROR | NV_ERROR nat

datatype nv_access = NvRead uint32_t uint8_t | NvWrite uint32_t "uint8_t list"

record nv_store =
  nv_mem :: "uint32_t \<Rightarrow> uint8_t"
  nv_status :: "nv_access list \<Rightarrow> nv_access \<Rightarrow> NonVolatileReturn"
  nv_log :: "nv_access list"

definition nonVolatileRead ::
  "nv_store \<Rightarrow> uint32_t \<Rightarrow> uint8_t \<Rightarrow> NonVolatileReturn \<times> uint8_t list \<times> nv_store" where
  "nonVolatileRead nv address len =
     (let a = NvRead address len;
          r = nv_status nv (nv_log nv) a;
          nv' = nv\<lparr>nv_log := nv_log nv @ [a]\<rparr>
      in if r = NV_NO_ERROR
         then (r, map (\<lambda>i. nv_mem nv (address + of_nat i)) [0..<unat len], nv')
         else (r, [], nv'))"

definition nonVolatileWrite ::
  "nv_store \<Rightarrow> uint8_t list \<Rightarrow> uint32_t \<Rightarrow> uint8_t \<Rightarrow> NonVolatileReturn \<times> nv_store" where
  "nonVolatileWrite nv data address len =
     (let a = NvWrite address (take (unat len) data);
          r = nv_status nv (nv_log nv) a;
          nv' = nv\<lparr>nv_log := nv_log nv @ [a]\<rparr>
      in if r = NV_NO_ERROR
         then (r, nv'\<lparr>nv_mem := (\<lambda>x. if unat (x - address) < unat len
                                       then data ! unat (x - address) else nv_mem nv x)\<rparr>)
         else (r, nv'))"

subsection \<open>The encrypted storage adapter\<close>

text \<open>
  The buffers the adapter hands to the XEX cipher: its locals \<open>ciphertext\<close>,
  \<open>plaintext\<close> and \<open>n\<close>, and the two key arrays.
\<close>

datatype xex_var = V_ciphertext | V_plaintext | V_n | V_tweak_key | V_encrypt_key

text \<open>
  The variables of \<open>encryptedNonVolatileWrite\<close> and \<open>encryptedNonVolatileRead\<close>
  that change while the block loop runs. The pointer \<open>data\<close> is the caller's buffer
  \<open>st_data\<close> and the number \<open>st_pos\<close> of bytes the pointer has advanced.
\<close>

record adapter_state =
  st_data :: "uint8_t list"
  st_pos :: nat
  st_length :: uint8_t
  st_block_start :: uint32_t
  st_block_offset :: uint8_t
  st_mem :: "xex_var mem"
  st_nv :: nv_store

text \<open>The entry of both functions: the three assignments and the loop that zeroes \<open>n\<close>.
  The locals \<open>ciphertext\<close>, \<open>plaintext\<close> and \<open>n\<close> start with unspecified content,
  here zeros; each is written before it is read.\<close>

definition adapter_block_end :: "uint32_t \<Rightarrow> uint8_t \<Rightarrow> uint32_t" where
  "adapter_block_end address len = (address + ucast len - 1) AND 0xfffffff0"

definition adapter_init ::
  "key_state \<Rightarrow> nv_store \<Rightarrow> uint8_t list \<Rightarrow> uint32_t \<Rightarrow> uint8_t \<Rightarrow> adapter_state" where
  "adapter_init ks nv data address len =
     (let block_start = address AND 0xfffffff0;
          block_offset = ucast (address AND 0x0000000f);
          m = (\<lambda>v. case v of
                 V_ciphertext \<Rightarrow> replicate 16 0
               | V_plaintext \<Rightarrow> replicate 16 0
               | V_n \<Rightarrow> replicate 16 0
               | V_tweak_key \<Rightarrow> nv_storage_tweak_key ks
               | V_encrypt_key \<Rightarrow> nv_storage_encrypt_key ks);
          m = m(V_n := fold (\<lambda>i n. n[i := 0]) [0..<16] (m V_n))
      in \<lparr>st_data = data, st_pos = 0, st_length = len, st_block_start = block_start,
          st_block_offset = block_offset, st_mem = m, st_nv = nv\<rparr>)"

text \<open>The statements of the loop bodies, one definition each.\<close>

definition block_read :: "adapter_state \<Rightarrow> NonVolatileReturn \<times> adapter_state" where
  "block_read st =
     (case nonVolatileRead (st_nv st) (st_block_start st) 16 of
        (r, ciphertext, nv) \<Rightarrow>
          if r \<noteq> NV_NO_ERROR then (r, st\<lparr>st_nv := nv\<rparr>)
          else (r, st\<lparr>st_nv := nv, st_mem := (st_mem st)(V_ciphertext := ciphertext)\<rparr>))"

definition block_tweak :: "adapter_state \<Rightarrow> adapter_state" where
  "block_tweak st =
     st\<lparr>st_mem := (st_mem st)(V_n := writeU32LittleEndian (st_mem st V_n) (st_block_start st))\<rparr>"

definition block_decrypt :: "aes_primitive \<Rightarrow> adapter_state \<Rightarrow> adapter_state" where
  "block_decrypt aes st =
     st\<lparr>st_mem := xexDecrypt aes (st_mem st) V_plaintext V_ciphertext V_n 1
                    V_tweak_key V_encrypt_key\<rparr>"

definition block_encrypt :: "aes_primitive \<Rightarrow> adapter_state \<Rightarrow> adapter_state" where
  "block_encrypt aes st =
     st\<lparr>st_mem := xexEncrypt aes (st_mem st) V_ciphertext V_plaintext V_n 1
                    V_tweak_key V_encrypt_key\<rparr>"

definition block_write :: "adapter_state \<Rightarrow> NonVolatileReturn \<times> adapter_state" where
  "block_write st =
     (case nonVolatileWrite (st_nv st) (st_mem st V_ciphertext) (st_block_start st) 16 of
        (r, nv) \<Rightarrow> (r, st\<lparr>st_nv := nv\<rparr>))"

text \<open>The inner loop of the write: \<open>plaintext[block_offset++] = *data++; length--\<close>.\<close>

function write_overlay :: "adapter_state \<Rightarrow> adapter_state" where
  "write_overlay st =
     (if st_length st \<noteq> 0 \<and> st_block_offset st < 16 then
        write_overlay (st\<lparr>
          st_mem := (st_mem st)(V_plaintext :=
            (st_mem st V_plaintext)[unat (st_block_offset st) := st_data st ! st_pos st]),
          st_block_offset := st_block_offset st + 1,
          st_pos := st_pos st + 1,
          st_length := st_length st - 1\<rparr>)
      else st)"
  by pat_completeness auto
termination
  by (relation "measure (\<lambda>st. unat (st_length st))") (auto simp: unat_minus_one unat_gt_0 word_neq_0_conv)

declare write_overlay.simps [simp del]

text \<open>The inner loop of the read: \<open>*data++ = plaintext[block_offset++]; length--\<close>.\<close>

function read_copy :: "adapter_state \<Rightarrow> adapter_state" where
  "read_copy st =
     (if st_length st \<noteq> 0 \<and> st_block_offset st < 16 then
        read_copy (st\<lparr>
          st_data := (st_data st)[st_pos st := st_mem st V_plaintext ! unat (st_block_offset st)],
          st_block_offset := st_block_offset st + 1,
          st_pos := st_pos st + 1,
          st_length := st_length st - 1\<rparr>)
      else st)"
  by pat_completeness auto
termination
  by (relation "measure (\<lambda>st. unat (st_length st))") (auto simp: unat_minus_one unat_gt_0 word_neq_0_conv)

declare read_copy.simps [simp del]

text \<open>
  One iteration of each block loop. The result is the status \<open>r\<close> and the state; a
  status other than \<open>NV_NO_ERROR\<close> is the source's \<open>return r\<close>.
\<close>

definition write_block :: "aes_primitive \<Rightarrow> adapter_state \<Rightarrow> NonVolatileReturn \<times> adapter_state" where
  "write_block aes st =
     (case block_read st of
        (r, st) \<Rightarrow>
          if r \<noteq> NV_NO_ERROR then (r, st)
          else
            let st = block_tweak st;
                st = block_decrypt aes st;
                st = write_overlay st;
                st = st\<lparr>st_block_offset := 0\<rparr>;
                st = block_encrypt aes st
            in block_write st)"

definition read_block :: "aes_primitive \<Rightarrow> adapter_state \<Rightarrow> NonVolatileReturn \<times> adapter_state" where
  "read_block aes st =
     (case block_read st of
        (r, st) \<Rightarrow>
          if r \<noteq> NV_NO_ERROR then (r, st)
          else
            let st = block_tweak st;
                st = block_decrypt aes st;
                st = read_copy st;
                st = st\<lparr>st_block_offset := 0\<rparr>
            in (r, st))"

text \<open>
  The block loop \<open>for (; block_start <= block_end; block_start += 16)\<close> of both
  functions. \<open>block_start\<close> is a 32-bit value and \<open>+= 16\<close> wraps around, so the loop
  need not end: the result is an option, and \<open>None\<close> is a call that never returns.
\<close>

partial_function (option) block_loop ::
  "(adapter_state \<Rightarrow> NonVolatileReturn \<times> adapter_state) \<Rightarrow> uint32_t \<Rightarrow> adapter_state
   \<Rightarrow> (NonVolatileReturn \<times> adapter_state) option" where
  "block_loop body block_end st =
     (if st_block_start st \<le> block_end then
        (case body st of
           (r, st) \<Rightarrow>
             if r \<noteq> NV_NO_ERROR then Some (r, st)
             else block_loop body block_end (st\<lparr>st_block_start := st_block_start st + 16\<rparr>))
      else Some (NV_NO_ERROR, st))"

text \<open>
  \<open>encryptedNonVolatileWrite\<close> returns its status and leaves the store changed;
  \<open>encryptedNonVolatileRead\<close> also leaves the caller's buffer changed.
\<close>

definition encryptedNonVolatileWrite ::
  "aes_primitive \<Rightarrow> key_state \<Rightarrow> nv_store \<Rightarrow> uint8_t list \<Rightarrow> uint32_t \<Rightarrow> uint8_t
   \<Rightarrow> (NonVolatileReturn \<times> nv_store) option" where
  "encryptedNonVolatileWrite aes ks nv data address len =
     map_option (\<lambda>(r, st). (r, st_nv st))
       (block_loop (write_block aes) (adapter_block_end address len)
          (adapter_init ks nv data address len))"

definition encryptedNonVolatileRead ::
  "aes_primitive \<Rightarrow> key_state \<Rightarrow> nv_store \<Rightarrow> uint8_t list \<Rightarrow> uint32_t \<Rightarrow> uint8_t
   \<Rightarrow> (NonVolatileReturn \<times> uint8_t list \<times> nv_store) option" where
  "encryptedNonVolatileRead aes ks nv data address len =
     map_option (\<lambda>(r, st). (r, st_data st, st_nv st))
       (block_loop (read_block aes) (adapter_block_end address len)
          (adapter_init ks nv data address len))"

section \<open>Notions the claims are stated with\<close>

subsection \<open>The GF doubler as arithmetic\<close>

text \<open>
  A 16-byte buffer read as a number, byte 0 least significant, and the doubling of
  GF(2^128) on such numbers: a polynomial over GF(2) is the number whose bits are its
  coefficients, multiplication by \<open>x\<close> is doubling, and reduction modulo
  \<open>x^128 + x^7 + x^2 + x + 1\<close> (the number \<open>2^128 + 0x87\<close>) of a polynomial of
  degree at most 128 is one XOR with the modulus when the coefficient of \<open>x^128\<close>
  is set.
\<close>

definition bytes_to_nat :: "uint8_t list \<Rightarrow> nat" where
  "bytes_to_nat bs = foldr (\<lambda>b v. unat b + 256 * v) bs 0"

definition gf_double :: "nat \<Rightarrow> nat" where
  "gf_double v = (if 2 * v < 2 ^ 128 then 2 * v else (2 * v) XOR (2 ^ 128 + 0x87))"

text \<open>The bit a byte hands to the next byte, and the shift of a byte list with a
  carry coming in: the loop of \<open>doubleInGF\<close> as a recursion over the list.\<close>

definition carry_of :: "uint8_t \<Rightarrow> uint8_t" where
  "carry_of b = drop_bit 7 (b AND 0x80)"

fun shl :: "uint8_t \<Rightarrow> uint8_t list \<Rightarrow> uint8_t list" where
  "shl c [] = []"
| "shl c (b # bs) = (push_bit 1 b OR c) # shl (carry_of b) bs"

subsection \<open>The XEX construction on values\<close>

text \<open>
  The tweak mask \<open>\<Delta>\<close>: the encryption of \<open>n\<close> under the tweak key, doubled
  \<open>seq\<close> times. \<open>xex_block\<close> is \<open>E(in \<oplus> \<Delta>) \<oplus> \<Delta>\<close>, or the same with \<open>D\<close>.
\<close>

definition xex_delta :: "aes_primitive \<Rightarrow> uint8_t list \<Rightarrow> uint8_t \<Rightarrow> uint8_t list \<Rightarrow> uint8_t list" where
  "xex_delta aes n seq tweak_key =
     (doubleInGF ^^ unat seq) (aesEncrypt aes n (aesExpandKey aes tweak_key))"

definition xex_block ::
  "aes_primitive \<Rightarrow> bool \<Rightarrow> uint8_t list \<Rightarrow> uint8_t list \<Rightarrow> uint8_t \<Rightarrow> uint8_t list \<Rightarrow> uint8_t list
   \<Rightarrow> uint8_t list" where
  "xex_block aes is_decrypt inp n seq tweak_key encrypt_key =
     xor16Bytes
       ((if is_decrypt then aesDecrypt aes else aesEncrypt aes)
          (xor16Bytes inp (xex_delta aes n seq tweak_key)) (aesExpandKey aes encrypt_key))
       (xex_delta aes n seq tweak_key)"

subsection \<open>The adapter's tweak and the decrypted content of the store\<close>

text \<open>The tweak value of the block at address \<open>b\<close>: \<open>b\<close> in four little-endian
  bytes, then twelve zero bytes.\<close>

definition adapter_tweak :: "uint32_t \<Rightarrow> uint8_t list" where
  "adapter_tweak b =
     [ucast b, ucast (drop_bit 8 b), ucast (drop_bit 16 b), ucast (drop_bit 24 b)] @ replicate 12 0"

text \<open>The 16 raw bytes of the block at \<open>b\<close>, their decryption under the current key
  with the block's tweak and sequence index 1, and the decrypted byte at any address.\<close>

definition nv_block :: "(uint32_t \<Rightarrow> uint8_t) \<Rightarrow> uint32_t \<Rightarrow> uint8_t list" where
  "nv_block mem b = map (\<lambda>i. mem (b + of_nat i)) [0..<16]"

definition plain_block :: "aes_primitive \<Rightarrow> key_state \<Rightarrow> (uint32_t \<Rightarrow> uint8_t) \<Rightarrow> uint32_t \<Rightarrow> uint8_t list" where
  "plain_block aes ks mem b =
     xex_block aes True (nv_block mem b) (adapter_tweak b) 1
       (nv_storage_tweak_key ks) (nv_storage_encrypt_key ks)"

definition plain_byte :: "aes_primitive \<Rightarrow> key_state \<Rightarrow> (uint32_t \<Rightarrow> uint8_t) \<Rightarrow> uint32_t \<Rightarrow> uint8_t" where
  "plain_byte aes ks mem x = plain_block aes ks mem (x AND 0xfffffff0) ! unat (x AND 0xf)"

subsection \<open>The block loop, one iteration at a time\<close>

text \<open>The state the next iteration starts from, and the states at the head of an
  iteration that a call reaches.\<close>

definition next_block :: "(adapter_state \<Rightarrow> NonVolatileReturn \<times> adapter_state) \<Rightarrow> adapter_state \<Rightarrow> adapter_state" where
  "next_block body st = (snd (body st))\<lparr>st_block_start := st_block_start (snd (body st)) + 16\<rparr>"

inductive loop_head ::
  "(adapter_state \<Rightarrow> NonVolatileReturn \<times> adapter_state) \<Rightarrow> uint32_t \<Rightarrow> adapter_state \<Rightarrow> adapter_state \<Rightarrow> bool"
  for body :: "adapter_state \<Rightarrow> NonVolatileReturn \<times> adapter_state" and block_end :: uint32_t
    and st0 :: adapter_state where
  first: "loop_head body block_end st0 st0"
| later: "loop_head body block_end st0 st \<Longrightarrow> st_block_start st \<le> block_end \<Longrightarrow>
          fst (body st) = NV_NO_ERROR \<Longrightarrow> loop_head body block_end st0 (next_block body st)"

text \<open>The state at the head of iteration \<open>k\<close> of a block loop, counting from 0, when
  the iterations before it have returned \<open>NV_NO_ERROR\<close>.\<close>

definition loop_state ::
  "(adapter_state \<Rightarrow> NonVolatileReturn \<times> adapter_state) \<Rightarrow> adapter_state \<Rightarrow> nat \<Rightarrow> adapter_state" where
  "loop_state body st0 k = (next_block body ^^ k) st0"

text \<open>What the adapter's working memory holds between iterations: the two keys, and
  in \<open>n\<close> sixteen bytes of which the last twelve are zero.\<close>

definition adapter_mem_ok :: "key_state \<Rightarrow> xex_var mem \<Rightarrow> bool" where
  "adapter_mem_ok ks m \<longleftrightarrow>
     m V_tweak_key = nv_storage_tweak_key ks \<and> m V_encrypt_key = nv_storage_encrypt_key ks \<and>
     length (m V_n) = 16 \<and> (\<forall>i. 4 \<le> i \<and> i < 16 \<longrightarrow> m V_n ! i = 0)"

text \<open>The number of bytes the inner copy loop moves, and what it leaves in the
  plaintext scratch (write) and in the caller's buffer (read).\<close>

definition copy_count :: "adapter_state \<Rightarrow> nat" where
  "copy_count st = min (unat (st_length st)) (16 - unat (st_block_offset st))"

definition overlay :: "uint8_t list \<Rightarrow> nat \<Rightarrow> uint8_t list \<Rightarrow> nat \<Rightarrow> nat \<Rightarrow> uint8_t list" where
  "overlay pt off data pos k =
     map (\<lambda>i. if off \<le> i \<and> i < off + k then data ! (pos + (i - off)) else pt ! i) [0..<length pt]"

definition copy_out :: "uint8_t list \<Rightarrow> nat \<Rightarrow> uint8_t list \<Rightarrow> nat \<Rightarrow> nat \<Rightarrow> uint8_t list" where
  "copy_out data pos pt off k =
     map (\<lambda>j. if pos \<le> j \<and> j < pos + k then pt ! (off + (j - pos)) else data ! j) [0..<length data]"



subsection \<open>Traces of raw accesses\<close>

text \<open>
  A call leaves its raw accesses at the end of the store's list. \<open>write_trace\<close> says
  what the accesses of a call to \<open>encryptedNonVolatileWrite\<close> that returns \<open>r\<close> look
  like, from the block at \<open>b\<close> on and after the accesses \<open>h\<close>: a read of the block,
  then a write of the same block, then the same for the block 16 bytes further, until
  the block loop ends (and \<open>r\<close> is \<open>NV_NO_ERROR\<close>) or an access is answered with a
  status other than \<open>NV_NO_ERROR\<close>, which is the last access and the status returned.
  \<open>read_trace\<close> is the same for \<open>encryptedNonVolatileRead\<close>, with reads only.
\<close>

fun nv_address :: "nv_access \<Rightarrow> uint32_t" where
  "nv_address (NvRead a l) = a"
| "nv_address (NvWrite a d) = a"

fun nv_is_read :: "nv_access \<Rightarrow> bool" where
  "nv_is_read (NvRead a l) = True"
| "nv_is_read (NvWrite a d) = False"

fun write_trace ::
  "(nv_access list \<Rightarrow> nv_access \<Rightarrow> NonVolatileReturn) \<Rightarrow> uint32_t \<Rightarrow> nv_access list \<Rightarrow> uint32_t
   \<Rightarrow> nv_access list \<Rightarrow> NonVolatileReturn \<Rightarrow> bool" where
  "write_trace stat be h b [] r \<longleftrightarrow> r = NV_NO_ERROR \<and> \<not> b \<le> be"
| "write_trace stat be h b [x] r \<longleftrightarrow>
     b \<le> be \<and> x = NvRead b 16 \<and> stat h x = r \<and> r \<noteq> NV_NO_ERROR"
| "write_trace stat be h b (x # y # tr) r \<longleftrightarrow>
     b \<le> be \<and> x = NvRead b 16 \<and> stat h x = NV_NO_ERROR \<and>
     \<not> nv_is_read y \<and> nv_address y = b \<and>
     (if stat (h @ [x]) y = NV_NO_ERROR
      then write_trace stat be (h @ [x, y]) (b + 16) tr r
      else tr = [] \<and> r = stat (h @ [x]) y)"

fun read_trace ::
  "(nv_access list \<Rightarrow> nv_access \<Rightarrow> NonVolatileReturn) \<Rightarrow> uint32_t \<Rightarrow> nv_access list \<Rightarrow> uint32_t
   \<Rightarrow> nv_access list \<Rightarrow> NonVolatileReturn \<Rightarrow> bool" where
  "read_trace stat be h b [] r \<longleftrightarrow> r = NV_NO_ERROR \<and> \<not> b \<le> be"
| "read_trace stat be h b (x # tr) r \<longleftrightarrow>
     b \<le> be \<and> x = NvRead b 16 \<and>
     (if stat h x = NV_NO_ERROR
      then read_trace stat be (h @ [x]) (b + 16) tr r
      else tr = [] \<and> r = stat h x)"


text \<open>The statuses with which the store answers the accesses \<open>tr\<close> made after the
  accesses \<open>h\<close>, in order.\<close>

fun nv_answers ::
  "(nv_access list \<Rightarrow> nv_access \<Rightarrow> NonVolatileReturn) \<Rightarrow> nv_access list \<Rightarrow> nv_access list
   \<Rightarrow> NonVolatileReturn list" where
  "nv_answers stat h [] = []"
| "nv_answers stat h (x # tr) = stat h x # nv_answers stat (h @ [x]) tr"

text \<open>A call that returns \<open>r\<close> after the accesses \<open>tr\<close> stops at the first error: every
  access but the last was answered \<open>NV_NO_ERROR\<close>, and the last one with \<open>r\<close>.\<close>

definition stops_at_first_error ::
  "(nv_access list \<Rightarrow> nv_access \<Rightarrow> NonVolatileReturn) \<Rightarrow> nv_access list \<Rightarrow> nv_access list
   \<Rightarrow> NonVolatileReturn \<Rightarrow> bool" where
  "stops_at_first_error stat h tr r \<longleftrightarrow>
     nv_answers stat h tr =
       (if r = NV_NO_ERROR then replicate (length tr) NV_NO_ERROR
        else replicate (length tr - 1) NV_NO_ERROR @ [r])"

text \<open>The order of the accesses of a write (the 16-byte read of a block, then a write
  to the same block, then the block 16 bytes further) and of a read, from the block
  at \<open>b\<close>; the addresses are 32-bit and wrap.\<close>

definition write_order :: "uint32_t \<Rightarrow> nv_access list \<Rightarrow> bool" where
  "write_order b tr \<longleftrightarrow>
     (\<forall>i<length tr.
        if even i then tr ! i = NvRead (b + 16 * of_nat (i div 2)) 16
        else \<not> nv_is_read (tr ! i) \<and> nv_address (tr ! i) = b + 16 * of_nat (i div 2))"

definition read_order :: "uint32_t \<Rightarrow> nv_access list \<Rightarrow> bool" where
  "read_order b tr \<longleftrightarrow> (\<forall>i<length tr. tr ! i = NvRead (b + 16 * of_nat i) 16)"

section \<open>Example instances\<close>

text \<open>
  A stand-in for the block cipher, on which decryption inverts encryption: XOR with the
  key. And example buffers: a 16-byte block, and a memory of four buffers (a block at
  pointer 0, a tweak value at 1, two keys at 2 and 3).
\<close>

definition xor_cipher :: aes_primitive where
  "xor_cipher = \<lparr>aesExpandKey = (\<lambda>key. key),
                 aesEncrypt = (\<lambda>inp key. xor16Bytes inp key),
                 aesDecrypt = (\<lambda>inp key. xor16Bytes inp key)\<rparr>"

definition example_block :: "uint8_t list" where
  "example_block = [0x10, 0x32, 0x54, 0x76, 0x98, 0xba, 0xdc, 0xfe,
                    0x01, 0x23, 0x45, 0x67, 0x89, 0xab, 0xcd, 0xef]"

definition example_mem :: "nat mem" where
  "example_mem p =
     (if p = 0 then example_block
      else if p = 1 then adapter_tweak 0x40
      else if p = 2 then replicate 16 0x5a
      else replicate 16 0xc3)"

text \<open>A key state with two non-zero keys.\<close>

definition example_keys :: key_state where
  "example_keys = \<lparr>nv_storage_encrypt_key = replicate 16 0x5a, nv_storage_tweak_key = replicate 16 0xc3\<rparr>"

text \<open>A store of zero bytes that answers every access with \<open>NV_NO_ERROR\<close>.\<close>

definition ok_store :: nv_store where
  "ok_store = \<lparr>nv_mem = (\<lambda>x. 0), nv_status = (\<lambda>h x. NV_NO_ERROR), nv_log = []\<rparr>"

text \<open>A store that answers the 16-byte read at \<open>b\<close> with an error and every other
  access with \<open>NV_NO_ERROR\<close>.\<close>

definition failing_store :: "uint32_t \<Rightarrow> nv_store" where
  "failing_store b = \<lparr>nv_mem = (\<lambda>x. 0),
     nv_status = (\<lambda>h x. if x = NvRead b 16 then NV_ERROR 1 else NV_NO_ERROR),
     nv_log = []\<rparr>"

section \<open>Lemmas\<close>

lemma fold_upd_length [simp]:
  "length (fold (\<lambda>i r. r[i := g i r]) [0..<n] r) = length r"
  by (induction n) simp_all

lemma fold_upd_nth:
  "j < length r \<Longrightarrow> fold (\<lambda>i r. r[i := g i (r ! i)]) [0..<n] r ! j =
     (if j < n then g j (r ! j) else r ! j)"
  by (induction n) (auto simp: nth_list_update less_Suc_eq)

lemma length_xor16Bytes [simp]: "length (xor16Bytes r op1) = length r"
  by (simp add: xor16Bytes_def)

lemma xor16Bytes_nth:
  "length r = 16 \<Longrightarrow> i < 16 \<Longrightarrow> xor16Bytes r op1 ! i = (r ! i) XOR (op1 ! i)"
  unfolding xor16Bytes_def
  using fold_upd_nth [where g = "\<lambda>i x. x XOR (op1 ! i)" and n = 16 and r = r and j = i]
  by simp

lemma xor16Bytes_cancel:
  "length r = 16 \<Longrightarrow> xor16Bytes (xor16Bytes r d) d = r"
  by (rule nth_equalityI) (simp_all add: xor16Bytes_nth xor.assoc)

lemma copy16:
  "length src = 16 \<Longrightarrow> fold (\<lambda>i buffer. buffer[i := src ! i]) [0..<16] (replicate 16 0) = src"
  apply (rule nth_equalityI)
   apply simp
  using fold_upd_nth [where g = "\<lambda>i x. src ! i" and n = 16 and r = "replicate 16 0"]
  apply simp
  done

lemma fold_const_funpow: "fold (\<lambda>i. f) [0..<n] x = (f ^^ n) x"
  by (induction n) simp_all

lemma doubleInGF_step_eq:
  "i < length op1 \<Longrightarrow>
   doubleInGF_step i (op1, c) = (op1[i := push_bit 1 (op1 ! i) OR c], carry_of (op1 ! i))"
  by (simp add: doubleInGF_step_def carry_of_def Let_def)

lemma doubleInGF_step_length [simp]:
  "length (fst (doubleInGF_step i st)) = length (fst st)"
  by (cases st) (simp add: doubleInGF_step_def Let_def)

lemma doubleInGF_fold_length [simp]:
  "length (fst (fold doubleInGF_step [0..<n] st)) = length (fst st)"
  by (induction n) simp_all

lemma length_doubleInGF [simp]: "length (doubleInGF op1) = length op1"
  using doubleInGF_fold_length [of 16 "(op1, 0)"]
  by (cases "fold doubleInGF_step [0..<16] (op1, 0)") (simp add: doubleInGF_def Let_def)

lemma doubleInGF_fold:
  "n \<le> length op1 \<Longrightarrow>
   fold doubleInGF_step [0..<n] (op1, 0) =
     (map (\<lambda>j. if j < n then push_bit 1 (op1 ! j) OR (if j = 0 then 0 else carry_of (op1 ! (j - 1)))
                else op1 ! j) [0..<length op1],
      if n = 0 then 0 else carry_of (op1 ! (n - 1)))"
proof (induction n)
  case 0
  then show ?case by (simp add: map_nth)
next
  case (Suc n)
  then have n: "n < length op1" by simp
  let ?f = "\<lambda>n j. if j < n then push_bit 1 (op1 ! j) OR (if j = 0 then 0 else carry_of (op1 ! (j - 1)))
                else op1 ! j"
  let ?c = "\<lambda>n. if n = 0 then 0 else carry_of (op1 ! (n - 1))"
  have "fold doubleInGF_step [0..<Suc n] (op1, 0) =
        doubleInGF_step n (map (?f n) [0..<length op1], ?c n)"
    using Suc n by simp
  also have "\<dots> = ((map (?f n) [0..<length op1])[n := push_bit 1 (op1 ! n) OR ?c n], carry_of (op1 ! n))"
    using n by (subst doubleInGF_step_eq) simp_all
  also have "(map (?f n) [0..<length op1])[n := push_bit 1 (op1 ! n) OR ?c n] =
             map (?f (Suc n)) [0..<length op1]"
  proof (rule nth_equalityI)
    show "length ((map (?f n) [0..<length op1])[n := push_bit 1 (op1 ! n) OR ?c n]) =
          length (map (?f (Suc n)) [0..<length op1])" by simp
  next
    fix i assume "i < length ((map (?f n) [0..<length op1])[n := push_bit 1 (op1 ! n) OR ?c n])"
    then have i: "i < length op1" by simp
    show "(map (?f n) [0..<length op1])[n := push_bit 1 (op1 ! n) OR ?c n] ! i =
          map (?f (Suc n)) [0..<length op1] ! i"
      using i n by (cases "i = n") (simp_all add: nth_list_update less_Suc_eq)
  qed
  finally show ?case by simp
qed

lemma doubleInGF_nth:
  assumes "length op1 = 16" "j < 16"
  shows "doubleInGF op1 ! j =
     (if j = 0 then push_bit 1 (op1 ! 0) XOR (0x87 AND - carry_of (op1 ! 15))
      else push_bit 1 (op1 ! j) OR carry_of (op1 ! (j - 1)))"
proof -
  have "(16::nat) \<le> length op1" using assms by simp
  from doubleInGF_fold [OF this]
  have f: "fold doubleInGF_step [0..<16] (op1, 0) =
     (map (\<lambda>j. if j < 16 then push_bit 1 (op1 ! j) OR (if j = 0 then 0 else carry_of (op1 ! (j - 1)))
                else op1 ! j) [0..<length op1], carry_of (op1 ! 15))"
    by simp
  show ?thesis
    unfolding doubleInGF_def f using assms
    by (simp add: nth_list_update del: upt_rec_numeral)
qed

lemma carry_drop_bit: "drop_bit 7 ((b::uint8_t) AND 0x80) = drop_bit 7 b"
  by (rule bit_word_eqI) (auto simp: bit_simps dest: bit_imp_le_length)

lemma unat_times2: "unat ((b::uint8_t) * 2) = 2 * unat b mod 256"
  by (simp add: unat_word_ariths mult.commute)

lemma unat_shift_plus1: "unat (push_bit 1 (b::uint8_t) + 1) = unat (push_bit 1 b) + 1"
proof -
  define x where "x = 2 * unat b mod 256"
  have x: "unat (push_bit 1 b) = x"
    by (simp add: unat_word_ariths mult.commute x_def)
  have "even x" unfolding x_def by (simp add: dvd_mod_iff)
  then have "x \<noteq> 255" by auto
  moreover have "x < 256" unfolding x_def by simp
  ultimately have "x + 1 < 256" by linarith
  then have "(x + 1) mod 256 = x + 1" by simp
  then show ?thesis
    using x by (simp add: unat_word_ariths)
qed

lemma take_bit8_xor: "a < 256 \<Longrightarrow> take_bit 8 ((a + 256 * r) XOR (135::nat)) = a XOR 135"
proof -
  assume a: "a < 256"
  have "take_bit 8 ((a + 256 * r) XOR (135::nat)) = take_bit 8 (a + 256 * r) XOR take_bit 8 135"
    by (simp only: take_bit_xor)
  also have "take_bit 8 (a + 256 * r) = a"
    using a by (simp add: take_bit_eq_mod)
  also have "take_bit 8 (135::nat) = 135"
    by (simp add: take_bit_eq_mod)
  finally show ?thesis .
qed

lemma drop_bit8_xor: "a < 256 \<Longrightarrow> drop_bit 8 ((a + 256 * r) XOR (135::nat)) = r"
proof -
  assume a: "a < 256"
  have "drop_bit 8 ((a + 256 * r) XOR (135::nat)) = drop_bit 8 (a + 256 * r) XOR drop_bit 8 135"
    by (simp only: drop_bit_xor)
  also have "drop_bit 8 (a + 256 * r) = r"
    using a by (simp add: drop_bit_eq_div)
  also have "drop_bit 8 (135::nat) = 0"
    by (simp add: drop_bit_eq_div)
  finally show ?thesis by simp
qed

lemma take_bit128_xor: "2 ^ 128 \<le> v \<Longrightarrow> v < 2 ^ 129 \<Longrightarrow> take_bit 128 (v XOR (2 ^ 128 + 0x87 :: nat)) = (v - 2 ^ 128) XOR 0x87"
proof -
  assume v: "2 ^ 128 \<le> v" "v < 2 ^ 129"
  have "take_bit 128 (v XOR (2 ^ 128 + 0x87 :: nat)) = take_bit 128 v XOR take_bit 128 (2 ^ 128 + 0x87)"
    by (simp only: take_bit_xor)
  also have "take_bit 128 v = v - 2 ^ 128"
  proof -
    have "v = (v - 2 ^ 128) + 1 * 2 ^ 128" using v by simp
    then have "v mod 2 ^ 128 = (v - 2 ^ 128) mod 2 ^ 128"
      by (metis mod_mult_self1)
    also have "\<dots> = v - 2 ^ 128" using v by simp
    finally show ?thesis by (simp add: take_bit_eq_mod)
  qed
  also have "take_bit 128 (2 ^ 128 + 0x87 :: nat) = 0x87"
    by (simp add: take_bit_eq_mod)
  finally show ?thesis .
qed

lemma drop_bit128_xor: "2 ^ 128 \<le> v \<Longrightarrow> v < 2 ^ 129 \<Longrightarrow> drop_bit 128 (v XOR (2 ^ 128 + 0x87 :: nat)) = 0"
proof -
  assume v: "2 ^ 128 \<le> v" "v < 2 ^ 129"
  have "drop_bit 128 (v XOR (2 ^ 128 + 0x87 :: nat)) = drop_bit 128 v XOR drop_bit 128 (2 ^ 128 + 0x87)"
    by (simp only: drop_bit_xor)
  also have "drop_bit 128 v = 1"
  proof -
    have "v div 2 ^ 128 = 1" using v by (simp add: div_nat_eqI)
    then show ?thesis by (simp add: drop_bit_eq_div)
  qed
  also have "drop_bit 128 (2 ^ 128 + 0x87 :: nat) = 1"
    by (simp add: drop_bit_eq_div)
  finally show ?thesis by simp
qed

lemma bytes_to_nat_simps [simp]:
  "bytes_to_nat [] = 0"
  "bytes_to_nat (b # bs) = unat b + 256 * bytes_to_nat bs"
  by (simp_all add: bytes_to_nat_def)

lemma bytes_to_nat_bound: "bytes_to_nat bs < 256 ^ length bs"
proof (induction bs)
  case Nil
  then show ?case by simp
next
  case (Cons b bs)
  have "unat b < 256" using unsigned_less [of b] by simp
  then have "unat b + 256 * bytes_to_nat bs < 256 + 256 * bytes_to_nat bs" by simp
  also have "\<dots> = 256 * (bytes_to_nat bs + 1)" by simp
  also have "\<dots> \<le> 256 * 256 ^ length bs"
    using Cons.IH by (intro mult_le_mono2) simp
  finally show ?case by simp
qed

lemma unat_carry_of: "unat (carry_of b) = unat b div 128"
  unfolding carry_of_def carry_drop_bit by (simp add: unat_drop_bit_eq drop_bit_eq_div unat_div)

lemma carry_of_cases: "carry_of b = 0 \<or> carry_of b = 1"
proof -
  have "unat b < 256" using unsigned_less [of b] by simp
  then have "unat b div 128 = 0 \<or> unat b div 128 = 1" by (auto simp: div_eq_0_iff less_Suc_eq_0_disj)
  then show ?thesis
    using unat_carry_of [of b] by (auto simp: word_unat_eq_iff)
qed

lemma unat_shift_byte:
  assumes "c = 0 \<or> c = 1"
  shows "unat (push_bit 1 (b::uint8_t) OR c) + 256 * unat (carry_of b) = 2 * unat b + unat c"
proof -
  have s: "2 * unat b mod 256 + 256 * (unat b div 128) = 2 * unat b"
  proof -
    define q r where "q = unat b div 128" and "r = unat b mod 128"
    have "2 * unat b mod 256 = 2 * r"
      using mult_mod_right [of 2 "unat b" 128] by (simp add: r_def)
    moreover have "q * 128 + r = unat b"
      unfolding q_def r_def by (rule div_mult_mod_eq)
    ultimately show ?thesis
      unfolding q_def [symmetric] by linarith
  qed
  from assms show ?thesis
  proof
    assume "c = 0"
    then show ?thesis using s unat_times2 [of b] by (simp add: unat_carry_of)
  next
    assume c: "c = 1"
    have "push_bit 1 b OR 1 = push_bit 1 b + 1" by (simp add: or_one_eq)
    then have "unat (push_bit 1 b OR 1) = 2 * unat b mod 256 + 1"
      using unat_shift_plus1 [of b] unat_times2 [of b] by simp
    then show ?thesis using s c by (simp add: unat_carry_of)
  qed
qed

lemma shl_length [simp]: "length (shl c bs) = length bs"
  by (induction bs arbitrary: c) simp_all

lemma shl_nth:
  "j < length bs \<Longrightarrow>
   shl c bs ! j = push_bit 1 (bs ! j) OR (if j = 0 then c else carry_of (bs ! (j - 1)))"
proof (induction bs arbitrary: c j)
  case Nil
  then show ?case by simp
next
  case (Cons b bs)
  show ?case
  proof (cases j)
    case 0
    then show ?thesis by simp
  next
    case (Suc k)
    then have "k < length bs" using Cons.prems by simp
    from Cons.IH [OF this, of "carry_of b"] Suc show ?thesis
      by (cases k) simp_all
  qed
qed

lemma shl_value:
  "c = 0 \<or> c = 1 \<Longrightarrow>
   bytes_to_nat (shl c bs) + 256 ^ length bs * unat (if bs = [] then c else carry_of (last bs))
     = 2 * bytes_to_nat bs + unat c"
proof (induction bs arbitrary: c)
  case Nil
  then show ?case by simp
next
  case (Cons b bs)
  have ih: "bytes_to_nat (shl (carry_of b) bs)
      + 256 ^ length bs * unat (if bs = [] then carry_of b else carry_of (last bs))
      = 2 * bytes_to_nat bs + unat (carry_of b)"
    by (rule Cons.IH) (rule carry_of_cases)
  have l: "(if bs = [] then carry_of b else carry_of (last bs)) = carry_of (last (b # bs))"
    by simp
  have "bytes_to_nat (shl c (b # bs)) + 256 ^ length (b # bs) * unat (carry_of (last (b # bs)))
     = unat (push_bit 1 b OR c)
       + 256 * (bytes_to_nat (shl (carry_of b) bs)
                + 256 ^ length bs * unat (carry_of (last (b # bs))))"
    by (simp add: algebra_simps del: push_bit_eq_mult)
  also have "\<dots> = unat (push_bit 1 b OR c) + 256 * (2 * bytes_to_nat bs + unat (carry_of b))"
    using ih unfolding l by simp
  also have "\<dots> = (unat (push_bit 1 b OR c) + 256 * unat (carry_of b)) + 512 * bytes_to_nat bs"
    by simp
  also have "\<dots> = 2 * unat b + unat c + 512 * bytes_to_nat bs"
    using unat_shift_byte [OF Cons.prems, of b] by simp
  finally show ?case by simp
qed

lemma xor_low_byte: "a < 256 \<Longrightarrow> (a + 256 * r) XOR (135::nat) = (a XOR 135) + 256 * r"
proof -
  assume a: "a < 256"
  let ?w = "(a + 256 * r) XOR (135::nat)"
  have "?w = push_bit 8 (drop_bit 8 ?w) + take_bit 8 ?w"
    by (simp only: bits_ident)
  then show ?thesis unfolding take_bit8_xor [OF a] drop_bit8_xor [OF a] by (simp add: push_bit_eq_mult)
qed

lemma xor_modulus:
  assumes "2 ^ 128 \<le> v" "v < 2 ^ 129"
  shows "v XOR (2 ^ 128 + 0x87) = (v - 2 ^ 128) XOR (0x87 :: nat)"
proof -
  let ?w = "v XOR (2 ^ 128 + 0x87 :: nat)"
  have "?w = push_bit 128 (drop_bit 128 ?w) + take_bit 128 ?w"
    by (simp only: bits_ident)
  then show ?thesis unfolding take_bit128_xor [OF assms] drop_bit128_xor [OF assms] by simp
qed

lemma carry_of_bit: "carry_of b = (if bit b 7 then 1 else 0)"
proof -
  have "carry_of b = drop_bit 7 b" unfolding carry_of_def by (rule carry_drop_bit)
  also have "\<dots> = (if bit b 7 then 1 else 0)"
  proof (rule bit_word_eqI)
    fix n assume "n < LENGTH(8)"
    show "bit (drop_bit 7 b) n = bit (if bit b 7 then 1 else 0 :: uint8_t) n"
    proof (cases "n = 0")
      case True
      then show ?thesis by (simp add: bit_simps)
    next
      case False
      then have "\<not> bit b (7 + n)"
        using bit_imp_le_length [of b "7 + n"] by auto
      with False show ?thesis by (simp add: bit_simps)
    qed
  qed
  finally show ?thesis .
qed

lemma reduce_mask: "(0x87 :: uint8_t) AND - carry_of b = (if bit b 7 then 0x87 else 0)"
  by (simp add: carry_of_bit)

lemma doubleInGF_shl:
  assumes "length op1 = 16"
  shows "doubleInGF op1 = (shl 0 op1)[0 := (shl 0 op1 ! 0) XOR (if bit (op1 ! 15) 7 then 0x87 else 0)]"
proof (rule nth_equalityI)
  show "length (doubleInGF op1) =
        length ((shl 0 op1)[0 := (shl 0 op1 ! 0) XOR (if bit (op1 ! 15) 7 then 0x87 else 0)])"
    by simp
next
  fix j assume "j < length (doubleInGF op1)"
  then have j: "j < 16" using assms by simp
  show "doubleInGF op1 ! j =
        (shl 0 op1)[0 := (shl 0 op1 ! 0) XOR (if bit (op1 ! 15) 7 then 0x87 else 0)] ! j"
    using j assms
    by (simp add: doubleInGF_nth shl_nth nth_list_update reduce_mask del: push_bit_eq_mult)
qed

lemma bytes_to_nat_update0:
  "xs \<noteq> [] \<Longrightarrow> bytes_to_nat (xs[0 := y]) = unat y + 256 * bytes_to_nat (tl xs)"
  by (cases xs) simp_all

lemma doubleInGF_value:
  assumes "length op1 = 16"
  shows "bytes_to_nat (doubleInGF op1) = gf_double (bytes_to_nat op1)"
proof -
  let ?v = "bytes_to_nat op1"
  let ?s = "shl 0 op1"
  have ls: "length ?s = 16" using assms by simp
  have ne: "op1 \<noteq> []" "?s \<noteq> []"
  proof -
    show "op1 \<noteq> []" using assms by auto
    show "?s \<noteq> []" using ls by (metis length_0_conv zero_neq_numeral)
  qed
  have l15: "last op1 = op1 ! 15" using assms ne by (simp add: last_conv_nth)
  have sv: "bytes_to_nat ?s + 256 ^ 16 * unat (carry_of (op1 ! 15)) = 2 * ?v"
    using shl_value [of 0 op1] ne assms l15 by simp
  have sb: "bytes_to_nat ?s < 256 ^ 16"
    using bytes_to_nat_bound [of ?s] assms by simp
  have p: "(256::nat) ^ 16 = 2 ^ 128" by simp
  show ?thesis
  proof (cases "bit (op1 ! 15) 7")
    case False
    then have "doubleInGF op1 = ?s"
      using doubleInGF_shl [OF assms] by simp
    moreover have "bytes_to_nat ?s = 2 * ?v"
      using sv False by (simp add: carry_of_bit)
    ultimately show ?thesis
      using sb unfolding p by (simp add: gf_double_def)
  next
    case True
    have v2: "2 * ?v = bytes_to_nat ?s + 2 ^ 128"
      using sv True unfolding p by (simp add: carry_of_bit)
    have ge: "\<not> 2 * ?v < 2 ^ 128" "2 ^ 128 \<le> 2 * ?v" "2 * ?v < 2 ^ 129"
      using v2 sb unfolding p by simp_all
    have hd_tl: "bytes_to_nat ?s = unat (?s ! 0) + 256 * bytes_to_nat (tl ?s)"
      using ne by (cases ?s) simp_all
    have ub: "unat (?s ! 0) < 256" using unsigned_less [of "?s ! 0"] by simp
    have "bytes_to_nat (doubleInGF op1) = unat ((?s ! 0) XOR 0x87) + 256 * bytes_to_nat (tl ?s)"
      using doubleInGF_shl [OF assms] True ne by (simp add: bytes_to_nat_update0)
    also have "unat ((?s ! 0) XOR 0x87) = unat (?s ! 0) XOR 135"
      by (simp add: unsigned_xor_eq)
    also have "(unat (?s ! 0) XOR 135) + 256 * bytes_to_nat (tl ?s) = bytes_to_nat ?s XOR 135"
      unfolding hd_tl using ub by (simp add: xor_low_byte)
    also have "bytes_to_nat ?s = 2 * ?v - 2 ^ 128" using v2 by simp
    also have "(2 * ?v - 2 ^ 128) XOR 135 = (2 * ?v) XOR (2 ^ 128 + 0x87)"
      using xor_modulus [OF ge(2,3)] by simp
    finally show ?thesis using ge(1) by (simp add: gf_double_def)
  qed
qed

lemma doubleInGF_zero: "doubleInGF (replicate 16 0) = replicate 16 0"
  by (rule nth_equalityI) (simp_all add: doubleInGF_nth carry_of_def)

lemma doubleInGF_list16:
  "doubleInGF [b0, b1, b2, b3, b4, b5, b6, b7, b8, b9, b10, b11, b12, b13, b14, b15] =
     [push_bit 1 b0 XOR (if bit b15 7 then 0x87 else 0),
      push_bit 1 b1 OR carry_of b0, push_bit 1 b2 OR carry_of b1,
      push_bit 1 b3 OR carry_of b2, push_bit 1 b4 OR carry_of b3,
      push_bit 1 b5 OR carry_of b4, push_bit 1 b6 OR carry_of b5,
      push_bit 1 b7 OR carry_of b6, push_bit 1 b8 OR carry_of b7,
      push_bit 1 b9 OR carry_of b8, push_bit 1 b10 OR carry_of b9,
      push_bit 1 b11 OR carry_of b10, push_bit 1 b12 OR carry_of b11,
      push_bit 1 b13 OR carry_of b12, push_bit 1 b14 OR carry_of b13,
      push_bit 1 b15 OR carry_of b14]"
  unfolding doubleInGF_shl [of "[b0, b1, b2, b3, b4, b5, b6, b7, b8, b9, b10, b11, b12, b13, b14, b15]", simplified]
  by (simp del: push_bit_eq_mult)

lemma funpow16: "(f ^^ 16) x = f (f (f (f (f (f (f (f (f (f (f (f (f (f (f (f x)))))))))))))))"
  by (simp add: eval_nat_numeral)

lemma double16: "(doubleInGF ^^ 16) [1,0,0,0,0,0,0,0,0,0,0,0,0,0,0,0] = [0,0,1,0,0,0,0,0,0,0,0,0,0,0,0,0]"
  unfolding funpow16 by (simp add: doubleInGF_list16 carry_of_def)

lemma funpow8: "(g ^^ 8) x = g (g (g (g (g (g (g (g x)))))))"
  by (simp add: eval_nat_numeral)

lemma funpow128: "((f :: 'a \<Rightarrow> 'a) ^^ 128) x = ((f ^^ 16) ^^ 8) x"
  by (simp add: funpow_mult)

lemma double128: "(doubleInGF ^^ 128) [1,0,0,0,0,0,0,0,0,0,0,0,0,0,0,0] = [0x87,0,0,0,0,0,0,0,0,0,0,0,0,0,0,0]"
  unfolding funpow128 funpow8 funpow16 by (simp add: doubleInGF_list16 carry_of_def)

lemma length_doubleInGF_pow [simp]: "length ((doubleInGF ^^ k) d) = length d"
  by (induction k) simp_all

lemma xexEnDecrypt_eq:
  assumes "length (m inp) = 16"
  shows "xexEnDecrypt aes m out inp n seq tweak_key encrypt_key is_decrypt =
     m(out := xor16Bytes
        ((if is_decrypt \<noteq> 0 then aesDecrypt aes else aesEncrypt aes)
           (xor16Bytes (m inp) (xex_delta aes (m n) seq (m tweak_key)))
           (aesExpandKey aes (m encrypt_key)))
        (xex_delta aes (m n) seq (m tweak_key)))"
  unfolding xexEnDecrypt_def xex_delta_def Let_def fold_const_funpow copy16 [OF assms]
  by simp

lemma xex_delta_length:
  "aes_inverts aes \<Longrightarrow> length n = 16 \<Longrightarrow> length (xex_delta aes n seq tk) = 16"
  by (simp add: xex_delta_def aes_inverts_def)

lemma unat_low4: "unat ((x::uint32_t) AND 0xf) = unat x mod 16"
proof -
  have "(0xf::uint32_t) = mask 4" by (simp add: mask_eq_exp_minus_1)
  then have "x AND 0xf = take_bit 4 x" by (simp add: take_bit_eq_mask)
  then show ?thesis by (simp add: unsigned_take_bit_eq take_bit_eq_mod unat_mod)
qed

lemma high28_eq: "(x::uint32_t) AND 0xfffffff0 = x - (x AND 0xf)"
proof -
  have "(0xfffffff0::uint32_t) + 16 = 0" by simp
  then have "(0xfffffff0::uint32_t) = - 16" by (simp only: eq_neg_iff_add_eq_0)
  also have "(- 16 :: uint32_t) = NOT 0xf" by (simp add: not_eq_complement)
  finally have e: "(0xfffffff0::uint32_t) = NOT 0xf" .
  have "x AND 0xfffffff0 = x AND NOT 0xf" by (simp only: e)
  also have "\<dots> = x AND NOT (x AND 0xf)"
    by (rule bit_eqI) (auto simp: bit_and_iff bit_not_iff bit_or_iff)
  also have "\<dots> = x - (x AND 0xf)"
    by (rule disjunctive_diff_eq_and_not [symmetric]) (simp add: and.assoc [symmetric])
  finally show ?thesis .
qed

lemma unat_high28: "unat ((x::uint32_t) AND 0xfffffff0) = 16 * (unat x div 16)"
proof -
  have "x AND 0xf \<le> x" by (rule word_and_le2)
  then have "unat (x - (x AND 0xf)) = unat x - unat (x AND 0xf)" by (rule unat_sub)
  then have "unat (x AND 0xfffffff0) = unat x - unat x mod 16"
    by (simp add: high28_eq unat_low4)
  then show ?thesis by (simp add: minus_mod_eq_mult_div)
qed

lemma off_suc: "(off::uint8_t) < 16 \<Longrightarrow> unat (off + 1) = unat off + 1"
  by (simp add: unat_word_ariths word_less_nat_alt)

lemma len_pred: "(l::uint8_t) \<noteq> 0 \<Longrightarrow> unat (l - 1) = unat l - 1"
  by (simp add: unat_minus_one)

lemma copy_count_step:
  assumes "st_length st \<noteq> 0" "st_block_offset st < 16"
  shows "copy_count st = Suc (copy_count (st\<lparr>st_mem := m', st_block_offset := st_block_offset st + 1,
            st_pos := p', st_length := st_length st - 1\<rparr>))"
    and "copy_count st = Suc (copy_count (st\<lparr>st_data := d', st_block_offset := st_block_offset st + 1,
            st_pos := p', st_length := st_length st - 1\<rparr>))"
  using assms
  by (auto simp: copy_count_def off_suc len_pred word_less_nat_alt unat_gt_0 min_def)

lemma copy_count_0:
  "\<not> (st_length st \<noteq> 0 \<and> st_block_offset st < 16) \<Longrightarrow> unat (st_block_offset st) \<le> 16 \<Longrightarrow> copy_count st = 0"
  by (auto simp: copy_count_def word_less_nat_alt unat_eq_0 not_less)

lemma write_overlay_frame:
  "st_data (write_overlay st) = st_data st \<and> st_nv (write_overlay st) = st_nv st \<and>
   st_block_start (write_overlay st) = st_block_start st \<and>
   (\<forall>v. v \<noteq> V_plaintext \<longrightarrow> st_mem (write_overlay st) v = st_mem st v) \<and>
   length (st_mem (write_overlay st) V_plaintext) = length (st_mem st V_plaintext)"
proof (induction st rule: write_overlay.induct)
  case (1 st)
  show ?case
  proof (cases "st_length st \<noteq> 0 \<and> st_block_offset st < 16")
    case True
    have w: "write_overlay st = write_overlay (st\<lparr>st_mem := (st_mem st)(V_plaintext :=
            (st_mem st V_plaintext)[unat (st_block_offset st) := st_data st ! st_pos st]),
          st_block_offset := st_block_offset st + 1,
          st_pos := st_pos st + 1,
          st_length := st_length st - 1\<rparr>)"
      using True by (subst write_overlay.simps) simp
    from "1.IH" [OF True] show ?thesis
      unfolding w by simp
  next
    case False
    then have w: "write_overlay st = st" by (subst write_overlay.simps) auto
    show ?thesis unfolding w by simp
  qed
qed

lemma write_overlay_counts:
  "unat (st_block_offset st) \<le> 16 \<Longrightarrow>
   st_pos (write_overlay st) = st_pos st + copy_count st \<and>
   unat (st_length (write_overlay st)) = unat (st_length st) - copy_count st \<and>
   unat (st_block_offset (write_overlay st)) = unat (st_block_offset st) + copy_count st"
proof (induction st rule: write_overlay.induct)
  case (1 st)
  show ?case
  proof (cases "st_length st \<noteq> 0 \<and> st_block_offset st < 16")
    case True
    let ?st' = "st\<lparr>st_mem := (st_mem st)(V_plaintext :=
            (st_mem st V_plaintext)[unat (st_block_offset st) := st_data st ! st_pos st]),
          st_block_offset := st_block_offset st + 1,
          st_pos := st_pos st + 1,
          st_length := st_length st - 1\<rparr>"
    have o: "unat (st_block_offset st + 1) = unat (st_block_offset st) + 1"
      using True by (simp add: off_suc)
    have l: "unat (st_length st - 1) = unat (st_length st) - 1"
      using True by (simp add: len_pred)
    have c: "copy_count st = Suc (copy_count ?st')"
      using True by (intro copy_count_step) simp_all
    have lt: "unat (st_block_offset st) < 16" using True by (simp add: word_less_nat_alt)
    have ih: "st_pos (write_overlay ?st') = st_pos ?st' + copy_count ?st' \<and>
      unat (st_length (write_overlay ?st')) = unat (st_length ?st') - copy_count ?st' \<and>
      unat (st_block_offset (write_overlay ?st')) = unat (st_block_offset ?st') + copy_count ?st'"
      using "1.IH" [OF True] o lt by simp
    have w: "write_overlay st = write_overlay ?st'"
      using True by (subst write_overlay.simps) simp
    show ?thesis unfolding w using ih o l c by simp
  next
    case False
    have w: "write_overlay st = st" using False by (subst write_overlay.simps) auto
    show ?thesis unfolding w using copy_count_0 [OF False "1.prems"] by simp
  qed
qed

lemma write_overlay_plaintext:
  "unat (st_block_offset st) \<le> 16 \<Longrightarrow> i < length (st_mem st V_plaintext) \<Longrightarrow>
   st_mem (write_overlay st) V_plaintext ! i =
     (if unat (st_block_offset st) \<le> i \<and> i < unat (st_block_offset st) + copy_count st
      then st_data st ! (st_pos st + (i - unat (st_block_offset st)))
      else st_mem st V_plaintext ! i)"
proof (induction st rule: write_overlay.induct)
  case (1 st)
  show ?case
  proof (cases "st_length st \<noteq> 0 \<and> st_block_offset st < 16")
    case True
    let ?st' = "st\<lparr>st_mem := (st_mem st)(V_plaintext :=
            (st_mem st V_plaintext)[unat (st_block_offset st) := st_data st ! st_pos st]),
          st_block_offset := st_block_offset st + 1,
          st_pos := st_pos st + 1,
          st_length := st_length st - 1\<rparr>"
    have o: "unat (st_block_offset st + 1) = unat (st_block_offset st) + 1"
      using True by (simp add: off_suc)
    have c: "copy_count st = Suc (copy_count ?st')"
      using True by (intro copy_count_step) simp_all
    have lt: "unat (st_block_offset st) < 16" using True by (simp add: word_less_nat_alt)
    have ih: "st_mem (write_overlay ?st') V_plaintext ! i =
       (if unat (st_block_offset ?st') \<le> i \<and> i < unat (st_block_offset ?st') + copy_count ?st'
        then st_data ?st' ! (st_pos ?st' + (i - unat (st_block_offset ?st')))
        else st_mem ?st' V_plaintext ! i)"
      using "1.IH" [OF True] o lt "1.prems" by simp
    have w: "write_overlay st = write_overlay ?st'"
      using True by (subst write_overlay.simps) simp
    show ?thesis
      unfolding w ih c using o "1.prems"(2)
      by (auto simp: nth_list_update)
         (rule arg_cong [where f = "(!) (st_data st)"], arith)+
  next
    case False
    have w: "write_overlay st = st" using False by (subst write_overlay.simps) auto
    show ?thesis unfolding w using copy_count_0 [OF False "1.prems"(1)] by auto
  qed
qed

lemma read_copy_frame:
  "length (st_data (read_copy st)) = length (st_data st) \<and> st_nv (read_copy st) = st_nv st \<and>
   st_block_start (read_copy st) = st_block_start st \<and>
   st_mem (read_copy st) = st_mem st"
proof (induction st rule: read_copy.induct)
  case (1 st)
  show ?case
  proof (cases "st_length st \<noteq> 0 \<and> st_block_offset st < 16")
    case True
    have w: "read_copy st = read_copy (st\<lparr>st_data := (st_data st)[st_pos st := st_mem st V_plaintext ! unat (st_block_offset st)],
          st_block_offset := st_block_offset st + 1,
          st_pos := st_pos st + 1,
          st_length := st_length st - 1\<rparr>)"
      using True by (subst read_copy.simps) simp
    from "1.IH" [OF True] show ?thesis
      unfolding w by simp
  next
    case False
    then have w: "read_copy st = st" by (subst read_copy.simps) auto
    show ?thesis unfolding w by simp
  qed
qed

lemma read_copy_counts:
  "unat (st_block_offset st) \<le> 16 \<Longrightarrow>
   st_pos (read_copy st) = st_pos st + copy_count st \<and>
   unat (st_length (read_copy st)) = unat (st_length st) - copy_count st \<and>
   unat (st_block_offset (read_copy st)) = unat (st_block_offset st) + copy_count st"
proof (induction st rule: read_copy.induct)
  case (1 st)
  show ?case
  proof (cases "st_length st \<noteq> 0 \<and> st_block_offset st < 16")
    case True
    let ?st' = "st\<lparr>st_data := (st_data st)[st_pos st := st_mem st V_plaintext ! unat (st_block_offset st)],
          st_block_offset := st_block_offset st + 1,
          st_pos := st_pos st + 1,
          st_length := st_length st - 1\<rparr>"
    have o: "unat (st_block_offset st + 1) = unat (st_block_offset st) + 1"
      using True by (simp add: off_suc)
    have l: "unat (st_length st - 1) = unat (st_length st) - 1"
      using True by (simp add: len_pred)
    have c: "copy_count st = Suc (copy_count ?st')"
      using True by (intro copy_count_step) simp_all
    have lt: "unat (st_block_offset st) < 16" using True by (simp add: word_less_nat_alt)
    have ih: "st_pos (read_copy ?st') = st_pos ?st' + copy_count ?st' \<and>
      unat (st_length (read_copy ?st')) = unat (st_length ?st') - copy_count ?st' \<and>
      unat (st_block_offset (read_copy ?st')) = unat (st_block_offset ?st') + copy_count ?st'"
      using "1.IH" [OF True] o lt by simp
    have w: "read_copy st = read_copy ?st'"
      using True by (subst read_copy.simps) simp
    show ?thesis unfolding w using ih o l c by simp
  next
    case False
    have w: "read_copy st = st" using False by (subst read_copy.simps) auto
    show ?thesis unfolding w using copy_count_0 [OF False "1.prems"] by simp
  qed
qed

lemma read_copy_data:
  "unat (st_block_offset st) \<le> 16 \<Longrightarrow> j < length (st_data st) \<Longrightarrow>
   st_data (read_copy st) ! j =
     (if st_pos st \<le> j \<and> j < st_pos st + copy_count st
      then st_mem st V_plaintext ! (unat (st_block_offset st) + (j - st_pos st))
      else st_data st ! j)"
proof (induction st rule: read_copy.induct)
  case (1 st)
  show ?case
  proof (cases "st_length st \<noteq> 0 \<and> st_block_offset st < 16")
    case True
    let ?st' = "st\<lparr>st_data := (st_data st)[st_pos st := st_mem st V_plaintext ! unat (st_block_offset st)],
          st_block_offset := st_block_offset st + 1,
          st_pos := st_pos st + 1,
          st_length := st_length st - 1\<rparr>"
    have o: "unat (st_block_offset st + 1) = unat (st_block_offset st) + 1"
      using True by (simp add: off_suc)
    have c: "copy_count st = Suc (copy_count ?st')"
      using True by (intro copy_count_step) simp_all
    have lt: "unat (st_block_offset st) < 16" using True by (simp add: word_less_nat_alt)
    have ih: "st_data (read_copy ?st') ! j =
       (if st_pos ?st' \<le> j \<and> j < st_pos ?st' + copy_count ?st'
        then st_mem ?st' V_plaintext ! (unat (st_block_offset ?st') + (j - st_pos ?st'))
        else st_data ?st' ! j)"
      using "1.IH" [OF True] o lt "1.prems" by simp
    have w: "read_copy st = read_copy ?st'"
      using True by (subst read_copy.simps) simp
    show ?thesis
      unfolding w ih c using o "1.prems"(2)
      by (auto simp: nth_list_update)
         (rule arg_cong [where f = "(!) (st_mem st V_plaintext)"], arith)+
  next
    case False
    have w: "read_copy st = st" using False by (subst read_copy.simps) auto
    show ?thesis unfolding w using copy_count_0 [OF False "1.prems"(1)] by auto
  qed
qed

lemma length_adapter_tweak [simp]: "length (adapter_tweak b) = 16"
  by (simp add: adapter_tweak_def)

lemma writeU32_tweak:
  assumes "length n = 16" "\<forall>i. 4 \<le> i \<and> i < 16 \<longrightarrow> n ! i = 0"
  shows "writeU32LittleEndian n b = adapter_tweak b"
proof (rule nth_equalityI)
  show "length (writeU32LittleEndian n b) = length (adapter_tweak b)"
    using assms by (simp add: writeU32LittleEndian_def)
next
  fix i assume "i < length (writeU32LittleEndian n b)"
  then have i: "i < 16" using assms by (simp add: writeU32LittleEndian_def)
  show "writeU32LittleEndian n b ! i = adapter_tweak b ! i"
  proof (cases "i < 4")
    case True
    then have "i = 0 \<or> i = 1 \<or> i = 2 \<or> i = 3" by arith
    then show ?thesis
      using assms(1) by (auto simp: writeU32LittleEndian_def adapter_tweak_def)
  next
    case False
    then have "adapter_tweak b ! i = 0"
      using i by (simp add: adapter_tweak_def nth_append)
    moreover have "writeU32LittleEndian n b ! i = n ! i"
      using False by (simp add: writeU32LittleEndian_def)
    ultimately show ?thesis using assms(2) False i by simp
  qed
qed

lemma adapter_tweak_ok:
  "length (adapter_tweak b) = 16 \<and> (\<forall>i. 4 \<le> i \<and> i < 16 \<longrightarrow> adapter_tweak b ! i = 0)"
  by (auto simp: adapter_tweak_def nth_append)

lemma xexEnDecrypt_other:
  "p \<noteq> out \<Longrightarrow> xexEnDecrypt aes m out inp n seq tk ek d p = m p"
  by (simp add: xexEnDecrypt_def Let_def)

lemma xexEnDecrypt_out:
  "length (m inp) = 16 \<Longrightarrow>
   xexEnDecrypt aes m out inp n seq tk ek d out = xex_block aes (d \<noteq> 0) (m inp) (m n) seq (m tk) (m ek)"
  by (simp add: xexEnDecrypt_eq xex_block_def)

lemma length_nv_block [simp]: "length (nv_block mem b) = 16"
  by (simp add: nv_block_def)

lemma length_overlay [simp]: "length (overlay pt off data pos k) = length pt"
  by (simp add: overlay_def)

lemma write_overlay_eq:
  assumes "unat (st_block_offset st) \<le> 16"
  shows "st_mem (write_overlay st) =
     (st_mem st)(V_plaintext := overlay (st_mem st V_plaintext) (unat (st_block_offset st))
        (st_data st) (st_pos st) (copy_count st))"
proof
  fix v
  show "st_mem (write_overlay st) v =
     ((st_mem st)(V_plaintext := overlay (st_mem st V_plaintext) (unat (st_block_offset st))
        (st_data st) (st_pos st) (copy_count st))) v"
  proof (cases "v = V_plaintext")
    case False
    then show ?thesis using write_overlay_frame [of st] by simp
  next
    case True
    have "st_mem (write_overlay st) V_plaintext =
          overlay (st_mem st V_plaintext) (unat (st_block_offset st)) (st_data st) (st_pos st) (copy_count st)"
    proof (rule nth_equalityI)
      show "length (st_mem (write_overlay st) V_plaintext) =
            length (overlay (st_mem st V_plaintext) (unat (st_block_offset st)) (st_data st) (st_pos st) (copy_count st))"
        using write_overlay_frame [of st] by simp
    next
      fix i assume "i < length (st_mem (write_overlay st) V_plaintext)"
      then have i: "i < length (st_mem st V_plaintext)"
        using write_overlay_frame [of st] by simp
      show "st_mem (write_overlay st) V_plaintext ! i =
            overlay (st_mem st V_plaintext) (unat (st_block_offset st)) (st_data st) (st_pos st) (copy_count st) ! i"
        using write_overlay_plaintext [OF assms i] i by (simp add: overlay_def)
    qed
    with True show ?thesis by simp
  qed
qed

lemma write_overlay_closed:
  assumes "unat (st_block_offset st) \<le> 16"
  shows "write_overlay st =
     st\<lparr>st_mem := (st_mem st)(V_plaintext := overlay (st_mem st V_plaintext)
                  (unat (st_block_offset st)) (st_data st) (st_pos st) (copy_count st)),
        st_block_offset := of_nat (unat (st_block_offset st) + copy_count st),
        st_pos := st_pos st + copy_count st,
        st_length := of_nat (unat (st_length st) - copy_count st)\<rparr>"
proof -
  note c = write_overlay_counts [OF assms]
  have "of_nat (unat (st_block_offset (write_overlay st))) = st_block_offset (write_overlay st)"
    by simp
  then have o: "st_block_offset (write_overlay st) = of_nat (unat (st_block_offset st) + copy_count st)"
    unfolding c [THEN conjunct2, THEN conjunct2] by simp
  have "of_nat (unat (st_length (write_overlay st))) = st_length (write_overlay st)"
    by simp
  then have l: "st_length (write_overlay st) = of_nat (unat (st_length st) - copy_count st)"
    unfolding c [THEN conjunct2, THEN conjunct1] by simp
  show ?thesis
    by (rule adapter_state.equality)
       (use write_overlay_frame [of st] c o l write_overlay_eq [OF assms] in simp_all)
qed

lemma length_copy_out [simp]: "length (copy_out data pos pt off k) = length data"
  by (simp add: copy_out_def)

lemma read_copy_closed:
  assumes "unat (st_block_offset st) \<le> 16"
  shows "read_copy st =
     st\<lparr>st_data := copy_out (st_data st) (st_pos st) (st_mem st V_plaintext)
                  (unat (st_block_offset st)) (copy_count st),
        st_block_offset := of_nat (unat (st_block_offset st) + copy_count st),
        st_pos := st_pos st + copy_count st,
        st_length := of_nat (unat (st_length st) - copy_count st)\<rparr>"
proof -
  note c = read_copy_counts [OF assms]
  have "of_nat (unat (st_block_offset (read_copy st))) = st_block_offset (read_copy st)"
    by simp
  then have o: "st_block_offset (read_copy st) = of_nat (unat (st_block_offset st) + copy_count st)"
    unfolding c [THEN conjunct2, THEN conjunct2] by simp
  have "of_nat (unat (st_length (read_copy st))) = st_length (read_copy st)"
    by simp
  then have l: "st_length (read_copy st) = of_nat (unat (st_length st) - copy_count st)"
    unfolding c [THEN conjunct2, THEN conjunct1] by simp
  have d: "st_data (read_copy st) = copy_out (st_data st) (st_pos st) (st_mem st V_plaintext)
                  (unat (st_block_offset st)) (copy_count st)"
  proof (rule nth_equalityI)
    show "length (st_data (read_copy st)) = length (copy_out (st_data st) (st_pos st)
            (st_mem st V_plaintext) (unat (st_block_offset st)) (copy_count st))"
      using read_copy_frame [of st] by simp
  next
    fix j assume "j < length (st_data (read_copy st))"
    then have j: "j < length (st_data st)" using read_copy_frame [of st] by simp
    show "st_data (read_copy st) ! j = copy_out (st_data st) (st_pos st)
            (st_mem st V_plaintext) (unat (st_block_offset st)) (copy_count st) ! j"
      using read_copy_data [OF assms j] j by (simp add: copy_out_def)
  qed
  show ?thesis
    by (rule adapter_state.equality)
       (use read_copy_frame [of st] c o l d in simp_all)
qed

lemma copy16_map:
  "fold (\<lambda>i buffer. buffer[i := src ! i]) [0..<16] (replicate 16 0) = map ((!) src) [0..<16]"
proof (rule nth_equalityI)
  show "length (fold (\<lambda>i buffer. buffer[i := src ! i]) [0..<16] (replicate 16 0)) =
        length (map ((!) src) [0..<16])" by simp
next
  fix i assume "i < length (fold (\<lambda>i buffer. buffer[i := src ! i]) [0..<16] (replicate 16 0))"
  then have "i < 16" by simp
  then show "fold (\<lambda>i buffer. buffer[i := src ! i]) [0..<16] (replicate 16 0) ! i =
        map ((!) src) [0..<16] ! i"
    using fold_upd_nth [where g = "\<lambda>i x. src ! i" and n = 16 and r = "replicate 16 0" and j = i]
    by (simp del: upt_rec_numeral)
qed

lemma xexEnDecrypt_closed:
  "xexEnDecrypt aes m out inp n seq tk ek d =
     m(out := xex_block aes (d \<noteq> 0) (map ((!) (m inp)) [0..<16]) (m n) seq (m tk) (m ek))"
  unfolding xexEnDecrypt_def xex_delta_def xex_block_def Let_def fold_const_funpow copy16_map
  by simp

lemma map_nth_16: "length xs = 16 \<Longrightarrow> map ((!) xs) [0..<16] = xs"
  using map_nth [of xs] by simp

lemma unat_16_8 [simp]: "unat (16 :: uint8_t) = 16"
  by simp

lemma nonVolatileRead_16:
  "nonVolatileRead nv b 16 =
     (let r = nv_status nv (nv_log nv) (NvRead b 16);
          nv' = nv\<lparr>nv_log := nv_log nv @ [NvRead b 16]\<rparr>
      in if r = NV_NO_ERROR then (r, nv_block (nv_mem nv) b, nv') else (r, [], nv'))"
  by (simp add: nonVolatileRead_def nv_block_def Let_def del: upt_rec_numeral)

lemma write_block_eq:
  assumes "unat (st_block_offset st) \<le> 16"
  shows "write_block aes st =
    (let b = st_block_start st; nv = st_nv st;
         r1 = nv_status nv (nv_log nv) (NvRead b 16);
         nv1 = nv\<lparr>nv_log := nv_log nv @ [NvRead b 16]\<rparr>
     in if r1 \<noteq> NV_NO_ERROR then (r1, st\<lparr>st_nv := nv1\<rparr>)
        else
          let n = writeU32LittleEndian (st_mem st V_n) b;
              tk = st_mem st V_tweak_key; ek = st_mem st V_encrypt_key;
              pt = xex_block aes True (nv_block (nv_mem nv) b) n 1 tk ek;
              k = copy_count st;
              pt' = overlay pt (unat (st_block_offset st)) (st_data st) (st_pos st) k;
              ct' = xex_block aes False (map ((!) pt') [0..<16]) n 1 tk ek;
              r2 = nv_status nv (nv_log nv1) (NvWrite b (take 16 ct'));
              nv2 = nv1\<lparr>nv_log := nv_log nv1 @ [NvWrite b (take 16 ct')]\<rparr>;
              nv3 = (if r2 = NV_NO_ERROR
                     then nv2\<lparr>nv_mem := (\<lambda>x. if unat (x - b) < 16 then ct' ! unat (x - b)
                                               else nv_mem nv x)\<rparr>
                     else nv2)
          in (r2, st\<lparr>st_nv := nv3,
                    st_mem := (st_mem st)(V_n := n, V_plaintext := pt', V_ciphertext := ct'),
                    st_block_offset := 0,
                    st_pos := st_pos st + k,
                    st_length := of_nat (unat (st_length st) - k)\<rparr>))"
proof (cases "nv_status (st_nv st) (nv_log (st_nv st)) (NvRead (st_block_start st) 16) = NV_NO_ERROR")
  case False
  then show ?thesis
    by (simp add: write_block_def block_read_def nonVolatileRead_16 Let_def)
next
  case True
  define st1 where "st1 = st\<lparr>st_nv := (st_nv st)\<lparr>nv_log := nv_log (st_nv st) @ [NvRead (st_block_start st) 16]\<rparr>,
      st_mem := (st_mem st)(V_ciphertext := nv_block (nv_mem (st_nv st)) (st_block_start st))\<rparr>"
  have r: "block_read st = (NV_NO_ERROR, st1)"
    using True by (simp add: block_read_def nonVolatileRead_16 Let_def st1_def)
  define st3 where "st3 = block_decrypt aes (block_tweak st1)"
  have o3: "unat (st_block_offset st3) \<le> 16"
    using assms by (simp add: st3_def block_decrypt_def block_tweak_def st1_def)
  have cc: "copy_count st3 = copy_count st"
    by (simp add: copy_count_def st3_def block_decrypt_def block_tweak_def st1_def)
  have w: "write_block aes st = block_write (block_encrypt aes ((write_overlay st3)\<lparr>st_block_offset := 0\<rparr>))"
    by (simp add: write_block_def r st3_def)
  show ?thesis
    unfolding w write_overlay_closed [OF o3] cc
    using True
    apply (simp add: st3_def st1_def block_write_def block_encrypt_def block_decrypt_def block_tweak_def
        xexEncrypt_def xexDecrypt_def xexEnDecrypt_closed nonVolatileWrite_def Let_def map_nth_16
        fun_upd_twist
        del: upt_rec_numeral)
    apply (auto intro!: adapter_state.equality nv_store.equality)
    done
qed

lemma aligned_unat: "(b::uint32_t) AND 0xf = 0 \<longleftrightarrow> unat b mod 16 = 0"
  using unat_low4 [of b] by (metis unat_0 unat_eq_0)

lemma unat_sub_if: "unat ((x::uint32_t) - b) = (if unat b \<le> unat x then unat x - unat b else unat x + 2 ^ 32 - unat b)"
  using unat_sub_if_size [of x b] by (simp add: word_size)

lemma aligned_le_top:
  assumes "(b::uint32_t) AND 0xf = 0"
  shows "unat b + 16 \<le> 2 ^ 32"
proof -
  define M :: nat where "M = 2 ^ 28"
  have N: "(2::nat) ^ 32 = 16 * M" by (simp add: M_def)
  have "unat b mod 16 = 0" using assms by (simp add: aligned_unat)
  then have "16 dvd unat b" by (simp add: mod_eq_0_iff_dvd)
  then obtain q where q: "unat b = 16 * q" by (rule dvdE)
  have "unat b < 2 ^ 32" using unsigned_less [of b] by simp
  then have "16 * q < 16 * M" unfolding N q .
  then have "16 * q + 16 \<le> 16 * M" by arith
  then show ?thesis unfolding N q .
qed

lemma div16_unique:
  fixes X q :: nat
  shows "16 * (X div 16) = 16 * q \<longleftrightarrow> 16 * q \<le> X \<and> X - 16 * q < 16"
proof
  assume a: "16 * (X div 16) = 16 * q"
  have "X = 16 * (X div 16) + X mod 16" by simp
  then have "X = 16 * q + X mod 16" using a by simp
  moreover have "X mod 16 < 16" by simp
  ultimately show "16 * q \<le> X \<and> X - 16 * q < 16" by linarith
next
  assume a: "16 * q \<le> X \<and> X - 16 * q < 16"
  then obtain r where r: "X = r + q * 16" "r < 16"
    by (metis add.commute le_add_diff_inverse mult.commute)
  have "X div 16 = q" unfolding r(1) using r(2) by simp
  then show "16 * (X div 16) = 16 * q" by simp
qed

lemma in_block_iff:
  assumes "(b::uint32_t) AND 0xf = 0"
  shows "unat (x - b) < 16 \<longleftrightarrow> x AND 0xfffffff0 = b"
proof -
  define X B where "X = unat x" and "B = unat b"
  define N :: nat where "N = 2 ^ 32"
  have "B mod 16 = 0" using assms by (simp add: aligned_unat B_def)
  then have "16 dvd B" by (simp add: mod_eq_0_iff_dvd)
  then obtain q where q: "B = 16 * q" by (rule dvdE)
  have top: "B + 16 \<le> N" using aligned_le_top [OF assms] unfolding B_def N_def .
  have "x AND 0xfffffff0 = b \<longleftrightarrow> unat (x AND 0xfffffff0) = unat b"
    by (rule word_unat_eq_iff)
  then have e: "x AND 0xfffffff0 = b \<longleftrightarrow> 16 * (X div 16) = B"
    unfolding unat_high28 X_def B_def .
  have s: "unat (x - b) = (if B \<le> X then X - B else X + N - B)"
    unfolding X_def B_def N_def by (rule unat_sub_if)
  show ?thesis
  proof (cases "B \<le> X")
    case True
    then have "16 * (X div 16) = B \<longleftrightarrow> X - B < 16"
      unfolding q using div16_unique [of X q] by simp
    then show ?thesis using True e s by simp
  next
    case False
    then have "16 * (X div 16) \<noteq> B"
      unfolding q using div16_unique [of X q] by simp
    moreover have "\<not> X + N - B < 16" using top False by arith
    ultimately show ?thesis using False e s by simp
  qed
qed

lemma xex_block_length:
  "aes_inverts aes \<Longrightarrow> length inp = 16 \<Longrightarrow> length (xex_block aes d inp n seq tk ek) = 16"
  by (simp add: xex_block_def aes_inverts_def)

lemma xex_block_inverse:
  assumes aes: "aes_inverts aes" and P: "length pt = 16"
  shows "xex_block aes True (xex_block aes False pt n seq tk ek) n seq tk ek = pt"
proof -
  let ?d = "xex_delta aes n seq tk"
  let ?k = "aesExpandKey aes ek"
  have x: "length (xor16Bytes pt ?d) = 16" using P by simp
  have e: "length (aesEncrypt aes (xor16Bytes pt ?d) ?k) = 16"
    using aes x by (simp add: aes_inverts_def)
  have "xex_block aes True (xex_block aes False pt n seq tk ek) n seq tk ek =
        xor16Bytes (aesDecrypt aes
          (xor16Bytes (xor16Bytes (aesEncrypt aes (xor16Bytes pt ?d) ?k) ?d) ?d) ?k) ?d"
    by (simp add: xex_block_def)
  also have "xor16Bytes (xor16Bytes (aesEncrypt aes (xor16Bytes pt ?d) ?k) ?d) ?d =
             aesEncrypt aes (xor16Bytes pt ?d) ?k"
    using e by (rule xor16Bytes_cancel)
  also have "aesDecrypt aes (aesEncrypt aes (xor16Bytes pt ?d) ?k) ?k = xor16Bytes pt ?d"
    using aes x by (simp add: aes_inverts_def)
  also have "xor16Bytes (xor16Bytes pt ?d) ?d = pt"
    using P by (rule xor16Bytes_cancel)
  finally show ?thesis .
qed

lemma unat_of_nat_small: "i < 16 \<Longrightarrow> unat (of_nat i :: uint32_t) = i"
  by (simp add: unat_of_nat)

lemma block_member:
  assumes "(b::uint32_t) AND 0xf = 0" "i < 16"
  shows "(b + of_nat i) AND 0xfffffff0 = b" "unat ((b + of_nat i) - b) = i"
proof -
  show u: "unat ((b + of_nat i) - b) = i" using assms(2) by (simp add: unat_of_nat_small)
  show "(b + of_nat i) AND 0xfffffff0 = b"
    using in_block_iff [OF assms(1), of "b + of_nat i"] u assms(2) by simp
qed

lemma high28_aligned [simp]: "((x::uint32_t) AND 0xfffffff0) AND 0xf = 0"
  by (simp add: and.assoc)

lemma nv_block_written:
  assumes al: "(b::uint32_t) AND 0xf = 0" and l: "length ct = 16"
  shows "nv_block (\<lambda>x. if unat (x - b) < 16 then ct ! unat (x - b) else mem x) b = ct"
proof (rule nth_equalityI)
  show "length (nv_block (\<lambda>x. if unat (x - b) < 16 then ct ! unat (x - b) else mem x) b) = length ct"
    using l by simp
next
  fix i assume "i < length (nv_block (\<lambda>x. if unat (x - b) < 16 then ct ! unat (x - b) else mem x) b)"
  then have i: "i < 16" by simp
  show "nv_block (\<lambda>x. if unat (x - b) < 16 then ct ! unat (x - b) else mem x) b ! i = ct ! i"
    using i block_member(2) [OF al i] by (simp add: nv_block_def del: upt_rec_numeral)
qed

lemma nv_block_other:
  assumes al: "(b::uint32_t) AND 0xf = 0" and al': "(b'::uint32_t) AND 0xf = 0" and ne: "b' \<noteq> b"
  shows "nv_block (\<lambda>x. if unat (x - b) < 16 then ct ! unat (x - b) else mem x) b' = nv_block mem b'"
proof (rule nth_equalityI)
  show "length (nv_block (\<lambda>x. if unat (x - b) < 16 then ct ! unat (x - b) else mem x) b') =
        length (nv_block mem b')" by simp
next
  fix i assume "i < length (nv_block (\<lambda>x. if unat (x - b) < 16 then ct ! unat (x - b) else mem x) b')"
  then have i: "i < 16" by simp
  have "\<not> unat ((b' + of_nat i) - b) < 16"
    using in_block_iff [OF al, of "b' + of_nat i"] block_member(1) [OF al' i] ne by simp
  then show "nv_block (\<lambda>x. if unat (x - b) < 16 then ct ! unat (x - b) else mem x) b' ! i =
        nv_block mem b' ! i"
    using i by (simp add: nv_block_def del: upt_rec_numeral)
qed

lemma plain_byte_written:
  assumes aes: "aes_inverts aes" and al: "(b::uint32_t) AND 0xf = 0" and l: "length pt = 16"
    and ct: "ct = xex_block aes False pt (adapter_tweak b) 1
                   (nv_storage_tweak_key ks) (nv_storage_encrypt_key ks)"
  shows "plain_byte aes ks (\<lambda>x. if unat (x - b) < 16 then ct ! unat (x - b) else mem x) x =
     (if x AND 0xfffffff0 = b then pt ! unat (x AND 0xf) else plain_byte aes ks mem x)"
proof (cases "x AND 0xfffffff0 = b")
  case True
  have lc: "length ct = 16" unfolding ct using aes l by (rule xex_block_length)
  show ?thesis
    using True by (simp add: plain_byte_def plain_block_def nv_block_written [OF al lc])
                  (simp add: ct xex_block_inverse [OF aes l])
next
  case False
  show ?thesis
    using False by (simp add: plain_byte_def plain_block_def nv_block_other [OF al _ False])
qed

lemma unat_split16: "unat (x::uint32_t) = unat (x AND 0xfffffff0) + unat (x AND 0xf)"
  by (simp add: unat_high28 unat_low4)

lemma unat_low4_less: "unat ((x::uint32_t) AND 0xf) < 16"
  by (simp add: unat_low4)

lemma not_in_block_range:
  assumes "(b::uint32_t) AND 0xf = 0" "x AND 0xfffffff0 \<noteq> b"
  shows "\<not> (unat b \<le> unat x \<and> unat x < unat b + 16)"
proof
  assume a: "unat b \<le> unat x \<and> unat x < unat b + 16"
  then have "unat (x - b) = unat x - unat b" by (simp add: unat_sub_if)
  then have "unat (x - b) < 16" using a by arith
  then show False using in_block_iff [OF assms(1), of x] assms(2) by simp
qed

lemma copy_count_le: "copy_count st \<le> unat (st_length st)" "unat (st_block_offset st) + copy_count st \<le> max 16 (unat (st_block_offset st))"
  by (simp_all add: copy_count_def)

lemma unat_of_nat_8: "n < 256 \<Longrightarrow> unat (of_nat n :: uint8_t) = n"
  by (simp add: unat_of_nat)

lemma write_block_sound:
  assumes aes: "aes_inverts aes"
    and inv: "adapter_mem_ok ks (st_mem st)"
    and alb: "st_block_start st AND 0xf = 0"
    and off: "unat (st_block_offset st) < 16"
    and ok: "fst (write_block aes st) = NV_NO_ERROR"
  shows "\<exists>st1. write_block aes st = (NV_NO_ERROR, st1) \<and>
      st_data st1 = st_data st \<and> st_pos st1 = st_pos st + copy_count st \<and>
      unat (st_length st1) = unat (st_length st) - copy_count st \<and>
      st_block_offset st1 = 0 \<and> st_block_start st1 = st_block_start st \<and>
      adapter_mem_ok ks (st_mem st1) \<and> nv_status (st_nv st1) = nv_status (st_nv st) \<and>
      (\<forall>x. plain_byte aes ks (nv_mem (st_nv st1)) x =
         (if unat (st_block_start st) + unat (st_block_offset st) \<le> unat x \<and>
             unat x < unat (st_block_start st) + unat (st_block_offset st) + copy_count st
          then st_data st ! (st_pos st + (unat x - (unat (st_block_start st) + unat (st_block_offset st))))
          else plain_byte aes ks (nv_mem (st_nv st)) x))"
proof -
  let ?b = "st_block_start st"
  let ?o = "unat (st_block_offset st)"
  let ?k = "copy_count st"
  let ?tk = "nv_storage_tweak_key ks"
  let ?ek = "nv_storage_encrypt_key ks"
  let ?mem = "nv_mem (st_nv st)"
  define pt where "pt = xex_block aes True (nv_block ?mem ?b) (adapter_tweak ?b) 1 ?tk ?ek"
  define pt' where "pt' = overlay pt ?o (st_data st) (st_pos st) ?k"
  define ct' where "ct' = xex_block aes False pt' (adapter_tweak ?b) 1 ?tk ?ek"
  define mem' where "mem' = (\<lambda>x. if unat (x - ?b) < 16 then ct' ! unat (x - ?b) else ?mem x)"
  have n: "writeU32LittleEndian (st_mem st V_n) ?b = adapter_tweak ?b"
    using inv by (intro writeU32_tweak) (simp_all add: adapter_mem_ok_def)
  have keys: "st_mem st V_tweak_key = ?tk" "st_mem st V_encrypt_key = ?ek"
    using inv by (simp_all add: adapter_mem_ok_def)
  have lpt: "length pt = 16"
    unfolding pt_def using aes by (intro xex_block_length) simp_all
  then have lpt': "length pt' = 16" by (simp add: pt'_def)
  have m16: "map ((!) pt') [0..<16] = pt'" using lpt' by (rule map_nth_16)
  have kl: "?k \<le> unat (st_length st)" "?o + ?k \<le> 16"
    using off by (simp_all add: copy_count_def)
  have l8: "unat (st_length st) < 256" using unsigned_less [of "st_length st"] by simp
  define st1 where "st1 = st\<lparr>st_nv := (st_nv st)\<lparr>
          nv_log := nv_log (st_nv st) @ [NvRead ?b 16, NvWrite ?b (take 16 ct')],
          nv_mem := mem'\<rparr>,
        st_mem := (st_mem st)(V_n := adapter_tweak ?b, V_plaintext := pt', V_ciphertext := ct'),
        st_block_offset := 0,
        st_pos := st_pos st + ?k,
        st_length := of_nat (unat (st_length st) - ?k)\<rparr>"
  have "unat (st_block_offset st) \<le> 16" using off by simp
  note e = write_block_eq [OF this, of aes, unfolded Let_def n keys, folded pt_def,
      folded pt'_def, unfolded m16, folded ct'_def, folded mem'_def]
  have r1: "nv_status (st_nv st) (nv_log (st_nv st)) (NvRead ?b 16) = NV_NO_ERROR"
    using ok unfolding e by (auto split: if_splits)
  have r2: "nv_status (st_nv st) (nv_log (st_nv st) @ [NvRead ?b 16]) (NvWrite ?b (take 16 ct')) = NV_NO_ERROR"
    using ok r1 unfolding e by (auto split: if_splits)
  have w: "write_block aes st = (NV_NO_ERROR, st1)"
    unfolding e using r1 r2 by (simp add: st1_def)
  have P: "plain_byte aes ks mem' x =
         (if unat ?b + ?o \<le> unat x \<and> unat x < unat ?b + ?o + ?k
          then st_data st ! (st_pos st + (unat x - (unat ?b + ?o)))
          else plain_byte aes ks ?mem x)" for x
  proof -
    have "plain_byte aes ks mem' x =
       (if x AND 0xfffffff0 = ?b then pt' ! unat (x AND 0xf) else plain_byte aes ks ?mem x)"
      unfolding mem'_def
      by (rule plain_byte_written [OF aes alb lpt']) (simp add: ct'_def)
    also have "\<dots> = (if unat ?b + ?o \<le> unat x \<and> unat x < unat ?b + ?o + ?k
          then st_data st ! (st_pos st + (unat x - (unat ?b + ?o)))
          else plain_byte aes ks ?mem x)"
    proof (cases "x AND 0xfffffff0 = ?b")
      case True
      define i where "i = unat (x AND 0xf)"
      have i: "i < 16" unfolding i_def by (rule unat_low4_less)
      have ux: "unat x = unat ?b + i" using unat_split16 [of x] True by (simp add: i_def)
      have "pt' ! i = (if ?o \<le> i \<and> i < ?o + ?k then st_data st ! (st_pos st + (i - ?o)) else pt ! i)"
        using i lpt by (simp add: pt'_def overlay_def del: upt_rec_numeral)
      moreover have "pt ! i = plain_byte aes ks ?mem x"
        using True by (simp add: plain_byte_def plain_block_def pt_def i_def)
      ultimately show ?thesis using True ux by (simp add: i_def [symmetric] add.assoc)
    next
      case False
      have "\<not> (unat ?b \<le> unat x \<and> unat x < unat ?b + 16)"
        using not_in_block_range [OF alb False] .
      then have "\<not> (unat ?b + ?o \<le> unat x \<and> unat x < unat ?b + ?o + ?k)" using kl by arith
      then show ?thesis using False by auto
    qed
    finally show ?thesis .
  qed
  have "adapter_mem_ok ks (st_mem st1)"
    using inv adapter_tweak_ok [of ?b] by (simp add: adapter_mem_ok_def st1_def)
  moreover have "unat (st_length st1) = unat (st_length st) - ?k"
    using l8 by (simp add: st1_def unat_of_nat_8)
  moreover have "nv_mem (st_nv st1) = mem'" by (simp add: st1_def)
  ultimately show ?thesis
    using w P
    by (intro exI [of _ st1]) (simp add: st1_def)
qed

lemma write_block_succeeds:
  assumes off: "unat (st_block_offset st) \<le> 16"
    and r1: "nv_status (st_nv st) (nv_log (st_nv st)) (NvRead (st_block_start st) 16) = NV_NO_ERROR"
    and r2: "\<forall>h d. nv_status (st_nv st) h (NvWrite (st_block_start st) d) = NV_NO_ERROR"
  shows "fst (write_block aes st) = NV_NO_ERROR"
  using r1 r2 by (simp add: write_block_eq [OF off] Let_def)

lemma unat_16_32: "unat (16 :: uint32_t) = 16"
  by simp

lemma unat_plus16:
  assumes "unat (b::uint32_t) + 16 < 2 ^ 32"
  shows "unat (b + 16) = unat b + 16"
  using assms unat_add_lem [of b 16] by simp

lemma aligned_plus16:
  assumes "(b::uint32_t) AND 0xf = 0" "unat b + 16 < 2 ^ 32"
  shows "(b + 16) AND 0xf = 0"
  using assms by (simp add: aligned_unat unat_plus16)

lemma aligned_gap:
  assumes "(b::uint32_t) AND 0xf = 0" "(e::uint32_t) AND 0xf = 0" "unat b < unat e"
  shows "unat b + 16 \<le> unat e"
proof -
  have "16 dvd unat b" "16 dvd unat e"
    using assms(1,2) by (simp_all add: aligned_unat mod_eq_0_iff_dvd)
  then obtain p q where "unat b = 16 * p" "unat e = 16 * q" by (auto elim!: dvdE)
  then show ?thesis using assms(3) by simp
qed

lemma write_loop_returns:
  assumes aes: "aes_inverts aes"
    and albe: "be AND 0xf = 0"
    and top: "unat be + 16 < 2 ^ 32"
  shows "adapter_mem_ok ks (st_mem st) \<Longrightarrow>
     st_block_start st AND 0xf = 0 \<Longrightarrow>
     unat (st_block_offset st) < 16 \<Longrightarrow>
     0 < unat (st_length st) \<Longrightarrow>
     unat (st_block_start st) \<le> unat be \<Longrightarrow>
     unat be < unat (st_block_start st) + unat (st_block_offset st) + unat (st_length st) \<Longrightarrow>
     unat (st_block_start st) + unat (st_block_offset st) + unat (st_length st) \<le> unat be + 16 \<Longrightarrow>
     (\<forall>h b' d. unat (st_block_start st) \<le> unat b' \<and> unat b' \<le> unat be \<longrightarrow>
        nv_status (st_nv st) h (NvRead b' 16) = NV_NO_ERROR \<and>
        nv_status (st_nv st) h (NvWrite b' d) = NV_NO_ERROR) \<Longrightarrow>
     \<exists>st'. block_loop (write_block aes) be st = Some (NV_NO_ERROR, st')"
proof (induction "unat be - unat (st_block_start st)" arbitrary: st rule: less_induct)
  case less
  let ?b = "st_block_start st"
  let ?o = "unat (st_block_offset st)"
  let ?L = "unat (st_length st)"
  let ?k = "copy_count st"
  note inv = less.prems(1) and alb = less.prems(2) and off = less.prems(3) and L = less.prems(4)
    and ble = less.prems(5) and last1 = less.prems(6) and last2 = less.prems(7) and ok = less.prems(8)
  have r1: "nv_status (st_nv st) (nv_log (st_nv st)) (NvRead ?b 16) = NV_NO_ERROR"
    using ok ble by blast
  have r2: "\<forall>h d. nv_status (st_nv st) h (NvWrite ?b d) = NV_NO_ERROR"
    using ok ble by blast
  have "unat (st_block_offset st) \<le> 16" using off by simp
  from write_block_sound [OF aes inv alb off write_block_succeeds [OF this r1 r2]]
  obtain st1 where w: "write_block aes st = (NV_NO_ERROR, st1)"
    and l1: "unat (st_length st1) = ?L - ?k"
    and o1: "st_block_offset st1 = 0" and b1: "st_block_start st1 = ?b"
    and inv1: "adapter_mem_ok ks (st_mem st1)"
    and s1: "nv_status (st_nv st1) = nv_status (st_nv st)"
    by blast
  define st2 where "st2 = st1\<lparr>st_block_start := st_block_start st1 + 16\<rparr>"
  have u16: "unat (?b + 16) = unat ?b + 16"
    using ble top by (intro unat_plus16) simp
  have loop: "block_loop (write_block aes) be st = block_loop (write_block aes) be st2"
    using ble by (subst block_loop.simps) (simp add: w st2_def word_le_nat_alt)
  have k: "?k = min ?L (16 - ?o)" by (simp add: copy_count_def)
  show ?case
  proof (cases "unat ?b = unat be")
    case True
    have "\<not> st_block_start st2 \<le> be"
      using True u16 by (simp add: st2_def b1 word_le_nat_alt)
    then have "block_loop (write_block aes) be st2 = Some (NV_NO_ERROR, st2)"
      by (subst block_loop.simps) simp
    then show ?thesis unfolding loop by blast
  next
    case False
    then have lt: "unat ?b < unat be" using ble by simp
    have gap: "unat ?b + 16 \<le> unat be" using alb albe lt by (rule aligned_gap)
    have Lgt: "16 - ?o < ?L" using last1 gap off by arith
    have kO: "?k = 16 - ?o" using k Lgt by simp
    have m: "unat be - unat (st_block_start st2) < unat be - unat ?b"
      using gap by (simp add: st2_def b1 u16)
    have "\<exists>st'. block_loop (write_block aes) be st2 = Some (NV_NO_ERROR, st')"
    proof (rule less.hyps [OF m])
      show "adapter_mem_ok ks (st_mem st2)" using inv1 by (simp add: st2_def)
      show "st_block_start st2 AND 0xf = 0"
        using aligned_plus16 [OF alb] ble top by (simp add: st2_def b1)
      show "unat (st_block_offset st2) < 16" by (simp add: st2_def o1)
      show "0 < unat (st_length st2)" using l1 kO Lgt by (simp add: st2_def)
      show "unat (st_block_start st2) \<le> unat be" using gap by (simp add: st2_def b1 u16)
      have "unat (st_block_start st2) + unat (st_block_offset st2) + unat (st_length st2)
          = unat ?b + ?o + ?L"
        using l1 kO Lgt off by (simp add: st2_def b1 u16 o1)
      then show "unat be < unat (st_block_start st2) + unat (st_block_offset st2) + unat (st_length st2)"
        and "unat (st_block_start st2) + unat (st_block_offset st2) + unat (st_length st2) \<le> unat be + 16"
        using last1 last2 by simp_all
      show "\<forall>h b' d. unat (st_block_start st2) \<le> unat b' \<and> unat b' \<le> unat be \<longrightarrow>
        nv_status (st_nv st2) h (NvRead b' 16) = NV_NO_ERROR \<and>
        nv_status (st_nv st2) h (NvWrite b' d) = NV_NO_ERROR"
        using ok by (simp add: st2_def b1 u16 s1)
    qed
    then show ?thesis unfolding loop .
  qed
qed

lemma read_block_eq:
  assumes "unat (st_block_offset st) \<le> 16"
  shows "read_block aes st =
    (let b = st_block_start st; nv = st_nv st;
         r1 = nv_status nv (nv_log nv) (NvRead b 16);
         nv1 = nv\<lparr>nv_log := nv_log nv @ [NvRead b 16]\<rparr>
     in if r1 \<noteq> NV_NO_ERROR then (r1, st\<lparr>st_nv := nv1\<rparr>)
        else
          let n = writeU32LittleEndian (st_mem st V_n) b;
              tk = st_mem st V_tweak_key; ek = st_mem st V_encrypt_key;
              pt = xex_block aes True (nv_block (nv_mem nv) b) n 1 tk ek;
              k = copy_count st
          in (NV_NO_ERROR, st\<lparr>st_nv := nv1,
                    st_mem := (st_mem st)(V_ciphertext := nv_block (nv_mem nv) b, V_n := n,
                                V_plaintext := pt),
                    st_data := copy_out (st_data st) (st_pos st) pt (unat (st_block_offset st)) k,
                    st_block_offset := 0,
                    st_pos := st_pos st + k,
                    st_length := of_nat (unat (st_length st) - k)\<rparr>))"
proof (cases "nv_status (st_nv st) (nv_log (st_nv st)) (NvRead (st_block_start st) 16) = NV_NO_ERROR")
  case False
  then show ?thesis
    by (simp add: read_block_def block_read_def nonVolatileRead_16 Let_def)
next
  case True
  define st1 where "st1 = st\<lparr>st_nv := (st_nv st)\<lparr>nv_log := nv_log (st_nv st) @ [NvRead (st_block_start st) 16]\<rparr>,
      st_mem := (st_mem st)(V_ciphertext := nv_block (nv_mem (st_nv st)) (st_block_start st))\<rparr>"
  have r: "block_read st = (NV_NO_ERROR, st1)"
    using True by (simp add: block_read_def nonVolatileRead_16 Let_def st1_def)
  define st3 where "st3 = block_decrypt aes (block_tweak st1)"
  have o3: "unat (st_block_offset st3) \<le> 16"
    using assms by (simp add: st3_def block_decrypt_def block_tweak_def st1_def)
  have cc: "copy_count st3 = copy_count st"
    by (simp add: copy_count_def st3_def block_decrypt_def block_tweak_def st1_def)
  have w: "read_block aes st = (NV_NO_ERROR, (read_copy st3)\<lparr>st_block_offset := 0\<rparr>)"
    by (simp add: read_block_def r st3_def)
  show ?thesis
    unfolding w read_copy_closed [OF o3] cc
    using True
    by (simp add: st3_def st1_def block_decrypt_def block_tweak_def
        xexDecrypt_def xexEnDecrypt_closed Let_def map_nth_16
        del: upt_rec_numeral)
qed

lemma plain_byte_in_block:
  assumes "(b::uint32_t) AND 0xf = 0" "i < 16"
  shows "plain_byte aes ks mem (b + of_nat i) = plain_block aes ks mem b ! i"
proof -
  have h: "(b + of_nat i) AND 0xfffffff0 = b" using assms by (rule block_member(1))
  have "unat (b + of_nat i) = unat ((b + of_nat i) AND 0xfffffff0) + unat ((b + of_nat i) AND 0xf)"
    by (rule unat_split16)
  moreover have "unat ((b + of_nat i) - b) = i" using assms by (rule block_member(2))
  moreover have "b \<le> b + of_nat i"
    using h word_and_le2 [of "b + of_nat i" "0xfffffff0"] by simp
  ultimately have "unat ((b + of_nat i) AND 0xf) = i"
    unfolding h using unat_sub [of b "b + of_nat i"] by simp
  then show ?thesis by (simp add: plain_byte_def h)
qed

lemma read_block_ok:
  assumes inv: "adapter_mem_ok ks (st_mem st)"
    and alb: "st_block_start st AND 0xf = 0"
    and off: "unat (st_block_offset st) < 16"
    and r1: "nv_status (st_nv st) (nv_log (st_nv st)) (NvRead (st_block_start st) 16) = NV_NO_ERROR"
  shows "\<exists>st1. read_block aes st = (NV_NO_ERROR, st1) \<and>
      st_pos st1 = st_pos st + copy_count st \<and>
      unat (st_length st1) = unat (st_length st) - copy_count st \<and>
      st_block_offset st1 = 0 \<and> st_block_start st1 = st_block_start st \<and>
      adapter_mem_ok ks (st_mem st1) \<and> nv_status (st_nv st1) = nv_status (st_nv st) \<and>
      nv_mem (st_nv st1) = nv_mem (st_nv st) \<and>
      length (st_data st1) = length (st_data st) \<and>
      (\<forall>j<length (st_data st). st_data st1 ! j =
         (if st_pos st \<le> j \<and> j < st_pos st + copy_count st
          then plain_byte aes ks (nv_mem (st_nv st))
                 (st_block_start st + of_nat (unat (st_block_offset st) + (j - st_pos st)))
          else st_data st ! j))"
proof -
  let ?b = "st_block_start st"
  let ?o = "unat (st_block_offset st)"
  let ?k = "copy_count st"
  let ?tk = "nv_storage_tweak_key ks"
  let ?ek = "nv_storage_encrypt_key ks"
  let ?mem = "nv_mem (st_nv st)"
  define pt where "pt = xex_block aes True (nv_block ?mem ?b) (adapter_tweak ?b) 1 ?tk ?ek"
  have n: "writeU32LittleEndian (st_mem st V_n) ?b = adapter_tweak ?b"
    using inv by (intro writeU32_tweak) (simp_all add: adapter_mem_ok_def)
  have keys: "st_mem st V_tweak_key = ?tk" "st_mem st V_encrypt_key = ?ek"
    using inv by (simp_all add: adapter_mem_ok_def)
  have kl: "?k \<le> unat (st_length st)" "?o + ?k \<le> 16"
    using off by (simp_all add: copy_count_def)
  have l8: "unat (st_length st) < 256" using unsigned_less [of "st_length st"] by simp
  define st1 where "st1 = st\<lparr>st_nv := (st_nv st)\<lparr>nv_log := nv_log (st_nv st) @ [NvRead ?b 16]\<rparr>,
        st_mem := (st_mem st)(V_ciphertext := nv_block ?mem ?b, V_n := adapter_tweak ?b,
                                V_plaintext := pt),
        st_data := copy_out (st_data st) (st_pos st) pt ?o ?k,
        st_block_offset := 0,
        st_pos := st_pos st + ?k,
        st_length := of_nat (unat (st_length st) - ?k)\<rparr>"
  have "unat (st_block_offset st) \<le> 16" using off by simp
  note e = read_block_eq [OF this, of aes, unfolded Let_def n keys, folded pt_def]
  have w: "read_block aes st = (NV_NO_ERROR, st1)"
    unfolding e using r1 by (simp add: st1_def)
  have D: "st_data st1 ! j =
         (if st_pos st \<le> j \<and> j < st_pos st + ?k
          then plain_byte aes ks ?mem (?b + of_nat (?o + (j - st_pos st)))
          else st_data st ! j)" if j: "j < length (st_data st)" for j
  proof (cases "st_pos st \<le> j \<and> j < st_pos st + ?k")
    case True
    then have i: "?o + (j - st_pos st) < 16" using kl by arith
    have "plain_byte aes ks ?mem (?b + of_nat (?o + (j - st_pos st))) = pt ! (?o + (j - st_pos st))"
      unfolding plain_byte_in_block [OF alb i] by (simp add: pt_def plain_block_def)
    then show ?thesis using True j by (simp add: st1_def copy_out_def)
  next
    case False
    then show ?thesis using j by (auto simp: st1_def copy_out_def)
  qed
  have "adapter_mem_ok ks (st_mem st1)"
    using inv adapter_tweak_ok [of ?b] by (simp add: adapter_mem_ok_def st1_def)
  moreover have "unat (st_length st1) = unat (st_length st) - ?k"
    using l8 by (simp add: st1_def unat_of_nat_8)
  moreover have "length (st_data st1) = length (st_data st)" by (simp add: st1_def)
  ultimately show ?thesis
    using w D
    by (intro exI [of _ st1]) (simp add: st1_def)
qed

lemma read_loop_ok:
  assumes albe: "be AND 0xf = 0"
    and top: "unat be + 16 < 2 ^ 32"
  shows "adapter_mem_ok ks (st_mem st) \<Longrightarrow>
     st_block_start st AND 0xf = 0 \<Longrightarrow>
     unat (st_block_offset st) < 16 \<Longrightarrow>
     0 < unat (st_length st) \<Longrightarrow>
     unat (st_block_start st) \<le> unat be \<Longrightarrow>
     unat be < unat (st_block_start st) + unat (st_block_offset st) + unat (st_length st) \<Longrightarrow>
     unat (st_block_start st) + unat (st_block_offset st) + unat (st_length st) \<le> unat be + 16 \<Longrightarrow>
     (\<forall>h b'. unat (st_block_start st) \<le> unat b' \<and> unat b' \<le> unat be \<longrightarrow>
        nv_status (st_nv st) h (NvRead b' 16) = NV_NO_ERROR) \<Longrightarrow>
     \<exists>st'. block_loop (read_block aes) be st = Some (NV_NO_ERROR, st') \<and>
       nv_mem (st_nv st') = nv_mem (st_nv st) \<and>
       length (st_data st') = length (st_data st) \<and>
       (\<forall>j<length (st_data st). st_data st' ! j =
          (if st_pos st \<le> j \<and> j < st_pos st + unat (st_length st)
           then plain_byte aes ks (nv_mem (st_nv st))
                  (st_block_start st + of_nat (unat (st_block_offset st) + (j - st_pos st)))
           else st_data st ! j))"
proof (induction "unat be - unat (st_block_start st)" arbitrary: st rule: less_induct)
  case less
  let ?b = "st_block_start st"
  let ?o = "unat (st_block_offset st)"
  let ?L = "unat (st_length st)"
  let ?k = "copy_count st"
  let ?P = "plain_byte aes ks (nv_mem (st_nv st))"
  note inv = less.prems(1) and alb = less.prems(2) and off = less.prems(3) and L = less.prems(4)
    and ble = less.prems(5) and last1 = less.prems(6) and last2 = less.prems(7) and ok = less.prems(8)
  have r1: "nv_status (st_nv st) (nv_log (st_nv st)) (NvRead ?b 16) = NV_NO_ERROR"
    using ok ble by blast
  from read_block_ok [OF inv alb off r1, of aes]
  obtain st1 where w: "read_block aes st = (NV_NO_ERROR, st1)"
    and p1: "st_pos st1 = st_pos st + ?k"
    and l1: "unat (st_length st1) = ?L - ?k"
    and o1: "st_block_offset st1 = 0" and b1: "st_block_start st1 = ?b"
    and inv1: "adapter_mem_ok ks (st_mem st1)"
    and s1: "nv_status (st_nv st1) = nv_status (st_nv st)"
    and m1: "nv_mem (st_nv st1) = nv_mem (st_nv st)"
    and ld1: "length (st_data st1) = length (st_data st)"
    and D1: "\<And>j. j < length (st_data st) \<Longrightarrow> st_data st1 ! j =
         (if st_pos st \<le> j \<and> j < st_pos st + ?k
          then ?P (?b + of_nat (?o + (j - st_pos st)))
          else st_data st ! j)"
    by blast
  define st2 where "st2 = st1\<lparr>st_block_start := st_block_start st1 + 16\<rparr>"
  have u16: "unat (?b + 16) = unat ?b + 16"
    using ble top by (intro unat_plus16) simp
  have loop: "block_loop (read_block aes) be st = block_loop (read_block aes) be st2"
    using ble by (subst block_loop.simps) (simp add: w st2_def word_le_nat_alt)
  have k: "?k = min ?L (16 - ?o)" by (simp add: copy_count_def)
  show ?case
  proof (cases "unat ?b = unat be")
    case True
    have kL: "?k = ?L" using k last2 True by simp
    have "\<not> st_block_start st2 \<le> be"
      using True u16 by (simp add: st2_def b1 word_le_nat_alt)
    then have "block_loop (read_block aes) be st2 = Some (NV_NO_ERROR, st2)"
      by (subst block_loop.simps) simp
    then show ?thesis
      unfolding loop using m1 ld1 D1 kL by (intro exI [of _ st2]) (simp add: st2_def)
  next
    case False
    then have lt: "unat ?b < unat be" using ble by simp
    have gap: "unat ?b + 16 \<le> unat be" using alb albe lt by (rule aligned_gap)
    have Lgt: "16 - ?o < ?L" using last1 gap off by arith
    have kO: "?k = 16 - ?o" using k Lgt by simp
    have m: "unat be - unat (st_block_start st2) < unat be - unat ?b"
      using gap by (simp add: st2_def b1 u16)
    have "\<exists>st'. block_loop (read_block aes) be st2 = Some (NV_NO_ERROR, st') \<and>
       nv_mem (st_nv st') = nv_mem (st_nv st2) \<and>
       length (st_data st') = length (st_data st2) \<and>
       (\<forall>j<length (st_data st2). st_data st' ! j =
          (if st_pos st2 \<le> j \<and> j < st_pos st2 + unat (st_length st2)
           then plain_byte aes ks (nv_mem (st_nv st2))
                  (st_block_start st2 + of_nat (unat (st_block_offset st2) + (j - st_pos st2)))
           else st_data st2 ! j))"
    proof (rule less.hyps [OF m])
      show "adapter_mem_ok ks (st_mem st2)" using inv1 by (simp add: st2_def)
      show "st_block_start st2 AND 0xf = 0"
        using aligned_plus16 [OF alb] ble top by (simp add: st2_def b1)
      show "unat (st_block_offset st2) < 16" by (simp add: st2_def o1)
      show "0 < unat (st_length st2)" using l1 kO Lgt by (simp add: st2_def)
      show "unat (st_block_start st2) \<le> unat be" using gap by (simp add: st2_def b1 u16)
      have "unat (st_block_start st2) + unat (st_block_offset st2) + unat (st_length st2)
          = unat ?b + ?o + ?L"
        using l1 kO Lgt off by (simp add: st2_def b1 u16 o1)
      then show "unat be < unat (st_block_start st2) + unat (st_block_offset st2) + unat (st_length st2)"
        and "unat (st_block_start st2) + unat (st_block_offset st2) + unat (st_length st2) \<le> unat be + 16"
        using last1 last2 by simp_all
      show "\<forall>h b'. unat (st_block_start st2) \<le> unat b' \<and> unat b' \<le> unat be \<longrightarrow>
        nv_status (st_nv st2) h (NvRead b' 16) = NV_NO_ERROR"
        using ok by (simp add: st2_def b1 u16 s1)
    qed
    then obtain st' where r: "block_loop (read_block aes) be st2 = Some (NV_NO_ERROR, st')"
      and m': "nv_mem (st_nv st') = nv_mem (st_nv st2)"
      and ld': "length (st_data st') = length (st_data st2)"
      and D': "\<And>j. j < length (st_data st2) \<Longrightarrow> st_data st' ! j =
          (if st_pos st2 \<le> j \<and> j < st_pos st2 + unat (st_length st2)
           then plain_byte aes ks (nv_mem (st_nv st2))
                  (st_block_start st2 + of_nat (unat (st_block_offset st2) + (j - st_pos st2)))
           else st_data st2 ! j)"
      by blast
    have L2: "unat (st_length st2) = ?L - ?k" by (simp add: st2_def l1)
    have kL: "?k \<le> ?L" by (simp add: copy_count_def)
    have "st_data st' ! j =
          (if st_pos st \<le> j \<and> j < st_pos st + ?L
           then ?P (?b + of_nat (?o + (j - st_pos st)))
           else st_data st ! j)" if j: "j < length (st_data st)" for j
    proof -
      have j2: "j < length (st_data st2)" using j by (simp add: st2_def ld1)
      consider (hi) "st_pos st + ?k \<le> j" "j < st_pos st + ?L"
        | (lo) "st_pos st \<le> j" "j < st_pos st + ?k"
        | (out) "\<not> (st_pos st \<le> j \<and> j < st_pos st + ?L)"
        using kL by linarith
      then show ?thesis
      proof cases
        case hi
        have e: "?o + (j - st_pos st) = 16 + (j - (st_pos st + ?k))"
          using hi kO off by simp
        have "(of_nat (?o + (j - st_pos st)) :: uint32_t) = of_nat (16 + (j - (st_pos st + ?k)))"
          by (simp only: e)
        also have "\<dots> = 16 + of_nat (j - (st_pos st + ?k))"
          by (simp only: of_nat_add of_nat_numeral)
        finally have "st_block_start st2 + of_nat (unat (st_block_offset st2) + (j - st_pos st2))
            = ?b + of_nat (?o + (j - st_pos st))"
          by (simp add: st2_def o1 b1 p1 add.assoc del: of_nat_add of_nat_diff)
        note xe = this
        have c: "st_pos st2 \<le> j \<and> j < st_pos st2 + (?L - ?k)"
          using hi kL by (simp add: st2_def p1)
        have c': "st_pos st \<le> j \<and> j < st_pos st + ?L" using hi by simp
        show ?thesis
          unfolding D' [OF j2] L2 xe using c c' by (simp only: if_True) (simp add: st2_def m1)
      next
        case lo
        then show ?thesis
          unfolding D' [OF j2] L2 using kL j by (simp add: st2_def p1 D1)
      next
        case out
        then show ?thesis
          unfolding D' [OF j2] L2 using kL j by (auto simp: st2_def p1 D1)
      qed
    qed
    then show ?thesis
      unfolding loop using r m' ld' m1 ld1 by (intro exI [of _ st']) (simp add: st2_def)
  qed
qed

lemma zero_fill: "fold (\<lambda>i n. n[i := 0]) [0..<16] (replicate 16 (0::uint8_t)) = replicate 16 0"
proof (rule nth_equalityI)
  show "length (fold (\<lambda>i n. n[i := 0]) [0..<16] (replicate 16 (0::uint8_t))) = length (replicate 16 (0::uint8_t))"
    by simp
next
  fix i assume "i < length (fold (\<lambda>i n. n[i := 0]) [0..<16] (replicate 16 (0::uint8_t)))"
  then have "i < 16" by simp
  then show "fold (\<lambda>i n. n[i := 0]) [0..<16] (replicate 16 (0::uint8_t)) ! i = replicate 16 0 ! i"
    using fold_upd_nth [where g = "\<lambda>i x. 0" and n = 16 and r = "replicate 16 (0::uint8_t)" and j = i]
    by (simp del: upt_rec_numeral)
qed

lemma unat_ucast_low4: "unat (ucast ((a::uint32_t) AND 0xf) :: uint8_t) = unat a mod 16"
proof -
  have "unat (ucast (a AND 0xf) :: uint8_t) = unat (a AND 0xf) mod 256"
    by (simp add: unsigned_ucast_eq take_bit_eq_mod)
  then show ?thesis by (simp add: unat_low4 mod_mod_cancel)
qed

lemma adapter_init_simps:
  "st_data (adapter_init ks nv data a len) = data"
  "st_pos (adapter_init ks nv data a len) = 0"
  "st_length (adapter_init ks nv data a len) = len"
  "st_block_start (adapter_init ks nv data a len) = a AND 0xfffffff0"
  "unat (st_block_offset (adapter_init ks nv data a len)) = unat a mod 16"
  "st_nv (adapter_init ks nv data a len) = nv"
  "st_mem (adapter_init ks nv data a len) V_n = replicate 16 0"
  "st_mem (adapter_init ks nv data a len) V_tweak_key = nv_storage_tweak_key ks"
  "st_mem (adapter_init ks nv data a len) V_encrypt_key = nv_storage_encrypt_key ks"
  by (simp_all add: adapter_init_def Let_def zero_fill unat_ucast_low4 del: upt_rec_numeral)

lemma adapter_init_ok: "adapter_mem_ok ks (st_mem (adapter_init ks nv data a len))"
  by (simp add: adapter_mem_ok_def adapter_init_simps)

lemma init_cursor:
  "unat (st_block_start (adapter_init ks nv data a len)) + unat (st_block_offset (adapter_init ks nv data a len)) = unat a"
  by (simp add: adapter_init_simps unat_high28)

lemma unat_block_end:
  assumes "len \<noteq> 0" "unat (a::uint32_t) + unat (len::uint8_t) \<le> 2 ^ 32"
  shows "unat (adapter_block_end a len) = 16 * ((unat a + unat len - 1) div 16)"
proof -
  have l: "0 < unat len" using assms(1) by (simp add: unat_gt_0)
  have l256: "unat len < 256" using unsigned_less [of len] by simp
  then have ul: "unat (ucast len :: uint32_t) = unat len"
    by (simp add: unsigned_ucast_eq take_bit_eq_mod)
  have "unat (ucast len - 1 :: uint32_t) = unat len - 1"
    using l ul by (simp add: unat_minus_one unat_eq_0 [symmetric] del: unat_eq_0)
  moreover have "unat a + (unat len - 1) < 2 ^ 32" using assms(2) l by simp
  ultimately have "unat (a + (ucast len - 1)) = unat a + (unat len - 1)"
    using unat_add_lem [of a "ucast len - 1"] by simp
  then have "unat (a + ucast len - 1) = unat a + unat len - 1" using l by (simp add: algebra_simps)
  then show ?thesis by (simp add: adapter_block_end_def unat_high28)
qed

lemma block_loop_step:
  assumes "st_block_start st \<le> be" "block_loop body be st = Some (NV_NO_ERROR, st')"
  shows "fst (body st) = NV_NO_ERROR \<and>
         block_loop body be ((snd (body st))\<lparr>st_block_start := st_block_start (snd (body st)) + 16\<rparr>)
           = Some (NV_NO_ERROR, st')"
  using assms by (subst (asm) block_loop.simps) (auto split: prod.splits if_splits)

lemma write_loop_sound:
  assumes aes: "aes_inverts aes"
    and albe: "be AND 0xf = 0"
    and top: "unat be + 16 < 2 ^ 32"
  shows "block_loop (write_block aes) be st = Some (NV_NO_ERROR, st') \<Longrightarrow>
     adapter_mem_ok ks (st_mem st) \<Longrightarrow>
     st_block_start st AND 0xf = 0 \<Longrightarrow>
     unat (st_block_offset st) < 16 \<Longrightarrow>
     0 < unat (st_length st) \<Longrightarrow>
     unat (st_block_start st) \<le> unat be \<Longrightarrow>
     unat be < unat (st_block_start st) + unat (st_block_offset st) + unat (st_length st) \<Longrightarrow>
     unat (st_block_start st) + unat (st_block_offset st) + unat (st_length st) \<le> unat be + 16 \<Longrightarrow>
     nv_status (st_nv st') = nv_status (st_nv st) \<and>
       (\<forall>x. plain_byte aes ks (nv_mem (st_nv st')) x =
          (if unat (st_block_start st) + unat (st_block_offset st) \<le> unat x \<and>
              unat x < unat (st_block_start st) + unat (st_block_offset st) + unat (st_length st)
           then st_data st ! (st_pos st + (unat x - (unat (st_block_start st) + unat (st_block_offset st))))
           else plain_byte aes ks (nv_mem (st_nv st)) x))"
proof (induction "unat be - unat (st_block_start st)" arbitrary: st rule: less_induct)
  case less
  let ?b = "st_block_start st"
  let ?o = "unat (st_block_offset st)"
  let ?L = "unat (st_length st)"
  let ?k = "copy_count st"
  note res = less.prems(1)
  note inv = less.prems(2) and alb = less.prems(3) and off = less.prems(4) and L = less.prems(5)
    and ble = less.prems(6) and last1 = less.prems(7) and last2 = less.prems(8)
  have "?b \<le> be" using ble by (simp add: word_le_nat_alt)
  note stp = block_loop_step [OF this res]
  from write_block_sound [OF aes inv alb off stp [THEN conjunct1]]
  obtain st1 where w: "write_block aes st = (NV_NO_ERROR, st1)"
    and d1: "st_data st1 = st_data st" and p1: "st_pos st1 = st_pos st + ?k"
    and l1: "unat (st_length st1) = ?L - ?k"
    and o1: "st_block_offset st1 = 0" and b1: "st_block_start st1 = ?b"
    and inv1: "adapter_mem_ok ks (st_mem st1)"
    and s1: "nv_status (st_nv st1) = nv_status (st_nv st)"
    and P1: "\<And>x. plain_byte aes ks (nv_mem (st_nv st1)) x =
         (if unat ?b + ?o \<le> unat x \<and> unat x < unat ?b + ?o + ?k
          then st_data st ! (st_pos st + (unat x - (unat ?b + ?o)))
          else plain_byte aes ks (nv_mem (st_nv st)) x)"
    by blast
  define st2 where "st2 = st1\<lparr>st_block_start := st_block_start st1 + 16\<rparr>"
  have u16: "unat (?b + 16) = unat ?b + 16"
    using ble top by (intro unat_plus16) simp
  have loop: "block_loop (write_block aes) be st2 = Some (NV_NO_ERROR, st')"
    using stp [THEN conjunct2] by (simp add: w st2_def)
  have k: "?k = min ?L (16 - ?o)" by (simp add: copy_count_def)
  show ?case
  proof (cases "unat ?b = unat be")
    case True
    have kL: "?k = ?L" using k last2 True by simp
    have "\<not> st_block_start st2 \<le> be"
      using True u16 by (simp add: st2_def b1 word_le_nat_alt)
    then have "block_loop (write_block aes) be st2 = Some (NV_NO_ERROR, st2)"
      by (subst block_loop.simps) simp
    then have "st' = st2" using loop by simp
    then show ?thesis
      using s1 P1 kL by (simp add: st2_def)
  next
    case False
    then have lt: "unat ?b < unat be" using ble by simp
    have gap: "unat ?b + 16 \<le> unat be" using alb albe lt by (rule aligned_gap)
    have Lgt: "16 - ?o < ?L" using last1 gap off by arith
    have kO: "?k = 16 - ?o" using k Lgt by simp
    have m: "unat be - unat (st_block_start st2) < unat be - unat ?b"
      using gap by (simp add: st2_def b1 u16)
    have "nv_status (st_nv st') = nv_status (st_nv st2) \<and>
       (\<forall>x. plain_byte aes ks (nv_mem (st_nv st')) x =
          (if unat (st_block_start st2) + unat (st_block_offset st2) \<le> unat x \<and>
              unat x < unat (st_block_start st2) + unat (st_block_offset st2) + unat (st_length st2)
           then st_data st2 ! (st_pos st2 + (unat x - (unat (st_block_start st2) + unat (st_block_offset st2))))
           else plain_byte aes ks (nv_mem (st_nv st2)) x))"
    proof (rule less.hyps [OF m loop])
      show "adapter_mem_ok ks (st_mem st2)" using inv1 by (simp add: st2_def)
      show "st_block_start st2 AND 0xf = 0"
        using aligned_plus16 [OF alb] ble top by (simp add: st2_def b1)
      show "unat (st_block_offset st2) < 16" by (simp add: st2_def o1)
      show "0 < unat (st_length st2)" using l1 kO Lgt by (simp add: st2_def)
      show "unat (st_block_start st2) \<le> unat be" using gap by (simp add: st2_def b1 u16)
      have "unat (st_block_start st2) + unat (st_block_offset st2) + unat (st_length st2)
          = unat ?b + ?o + ?L"
        using l1 kO Lgt off by (simp add: st2_def b1 u16 o1)
      then show "unat be < unat (st_block_start st2) + unat (st_block_offset st2) + unat (st_length st2)"
        and "unat (st_block_start st2) + unat (st_block_offset st2) + unat (st_length st2) \<le> unat be + 16"
        using last1 last2 by simp_all
    qed
    then have s': "nv_status (st_nv st') = nv_status (st_nv st2)"
      and P': "\<And>x. plain_byte aes ks (nv_mem (st_nv st')) x =
          (if unat (st_block_start st2) + unat (st_block_offset st2) \<le> unat x \<and>
              unat x < unat (st_block_start st2) + unat (st_block_offset st2) + unat (st_length st2)
           then st_data st2 ! (st_pos st2 + (unat x - (unat (st_block_start st2) + unat (st_block_offset st2))))
           else plain_byte aes ks (nv_mem (st_nv st2)) x)"
      by blast+
    have c2: "unat (st_block_start st2) + unat (st_block_offset st2) = unat ?b + ?o + ?k"
      using kO off by (simp add: st2_def b1 u16 o1)
    have L2: "unat (st_length st2) = ?L - ?k" by (simp add: st2_def l1)
    have kL: "?k \<le> ?L" by (simp add: copy_count_def)
    have "plain_byte aes ks (nv_mem (st_nv st')) x =
          (if unat ?b + ?o \<le> unat x \<and> unat x < unat ?b + ?o + ?L
           then st_data st ! (st_pos st + (unat x - (unat ?b + ?o)))
           else plain_byte aes ks (nv_mem (st_nv st)) x)" for x
    proof -
      consider (hi) "unat ?b + ?o + ?k \<le> unat x" "unat x < unat ?b + ?o + ?L"
        | (lo) "unat ?b + ?o \<le> unat x" "unat x < unat ?b + ?o + ?k"
        | (out) "\<not> (unat ?b + ?o \<le> unat x \<and> unat x < unat ?b + ?o + ?L)"
        using kL by linarith
      then show ?thesis
      proof cases
        case hi
        have "st_pos st + ?k + (unat x - (unat ?b + ?o + ?k)) = st_pos st + (unat x - (unat ?b + ?o))"
          using hi by simp
        then show ?thesis
          unfolding P' c2 L2 using hi kL by (simp add: st2_def d1 p1)
      next
        case lo
        then show ?thesis
          unfolding P' c2 L2 using kL by (simp add: st2_def P1)
      next
        case out
        then show ?thesis
          unfolding P' c2 L2 using kL by (auto simp: st2_def P1)
      qed
    qed
    then show ?thesis
      using s' s1 by (simp add: st2_def)
  qed
qed

lemma block_loop_unfold:
  "block_loop body be st =
     (if st_block_start st \<le> be then
        (if fst (body st) \<noteq> NV_NO_ERROR then Some (body st)
         else block_loop body be (next_block body st))
      else Some (NV_NO_ERROR, st))"
  by (subst block_loop.simps) (simp add: next_block_def split: prod.splits)

lemma block_loop_never_ok:
  assumes step: "\<And>st. J st \<Longrightarrow> st_block_start st \<le> be \<and> J (next_block body st)"
    and res: "block_loop body be st = Some (r, st')"
    and J: "J st"
  shows "r \<noteq> NV_NO_ERROR"
proof -
  define P where "P = (\<lambda>body be st (y :: NonVolatileReturn \<times> adapter_state).
     (\<forall>st. J st \<longrightarrow> st_block_start st \<le> be \<and> J (next_block body st)) \<longrightarrow> J st \<longrightarrow>
        fst y \<noteq> NV_NO_ERROR)"
  have "P body be st (r, st')"
  proof (rule block_loop.raw_induct [OF _ res, where P = P])
    fix block_loop' body be st y
    assume ih: "\<And>body be st y. block_loop' body be st = Some y \<Longrightarrow> P body be st y"
      and eq: "(if st_block_start st \<le> be
         then case body st of
           (r, st) \<Rightarrow> if r \<noteq> NV_NO_ERROR then Some (r, st)
                      else block_loop' body be (st\<lparr>st_block_start := st_block_start st + 16\<rparr>)
         else Some (NV_NO_ERROR, st)) = Some y"
    show "P body be st y"
      unfolding P_def
    proof (intro impI)
      assume s: "\<forall>st. J st \<longrightarrow> st_block_start st \<le> be \<and> J (next_block body st)" and j: "J st"
      from s [rule_format, OF j] have le: "st_block_start st \<le> be" and j': "J (next_block body st)"
        by simp_all
      show "fst y \<noteq> NV_NO_ERROR"
      proof (cases "fst (body st) \<noteq> NV_NO_ERROR")
        case True
        then have "y = body st" using eq le by (auto split: prod.splits)
        then show ?thesis using True by simp
      next
        case False
        then have "block_loop' body be (next_block body st) = Some y"
          using eq le by (auto simp: next_block_def split: prod.splits)
        from ih [OF this] s j' show ?thesis unfolding P_def by simp
      qed
    qed
  qed
  moreover have "\<forall>st. J st \<longrightarrow> st_block_start st \<le> be \<and> J (next_block body st)"
    by (intro allI impI) (rule step)
  ultimately show ?thesis using J unfolding P_def by simp
qed

lemma block_loop_diverges:
  assumes step: "\<And>st. I st \<Longrightarrow> st_block_start st \<le> be \<and> fst (body st) = NV_NO_ERROR \<and>
                   I (next_block body st)"
    and I: "I st"
  shows "block_loop body be st = None"
proof (cases "block_loop body be st")
  case None
  then show ?thesis .
next
  case (Some res)
  define P where "P = (\<lambda>body be st (y :: NonVolatileReturn \<times> adapter_state).
     (\<forall>st. I st \<longrightarrow> st_block_start st \<le> be \<and> fst (body st) = NV_NO_ERROR \<and> I (next_block body st))
        \<longrightarrow> \<not> I st)"
  have "P body be st res"
  proof (rule block_loop.raw_induct [OF _ Some, where P = P])
    fix block_loop' body be st y
    assume ih: "\<And>body be st y. block_loop' body be st = Some y \<Longrightarrow> P body be st y"
      and eq: "(if st_block_start st \<le> be
         then case body st of
           (r, st) \<Rightarrow> if r \<noteq> NV_NO_ERROR then Some (r, st)
                      else block_loop' body be (st\<lparr>st_block_start := st_block_start st + 16\<rparr>)
         else Some (NV_NO_ERROR, st)) = Some y"
    show "P body be st y"
      unfolding P_def
    proof (intro impI notI)
      assume s: "\<forall>st. I st \<longrightarrow> st_block_start st \<le> be \<and> fst (body st) = NV_NO_ERROR \<and> I (next_block body st)"
        and i: "I st"
      from s [rule_format, OF i] have le: "st_block_start st \<le> be" and ok: "fst (body st) = NV_NO_ERROR"
        and i': "I (next_block body st)" by simp_all
      have "block_loop' body be (next_block body st) = Some y"
        using eq le ok by (auto simp: next_block_def split: prod.splits)
      from ih [OF this] s i' show False unfolding P_def by simp
    qed
  qed
  moreover have "\<forall>st. I st \<longrightarrow> st_block_start st \<le> be \<and> fst (body st) = NV_NO_ERROR \<and> I (next_block body st)"
    by (intro allI impI) (rule step)
  ultimately show ?thesis using I unfolding P_def by simp
qed

lemma write_block_trace:
  assumes off: "unat (st_block_offset st) \<le> 16"
  shows "nv_status (st_nv (snd (write_block aes st))) = nv_status (st_nv st) \<and>
     st_block_start (snd (write_block aes st)) = st_block_start st \<and>
     (fst (write_block aes st) = NV_NO_ERROR \<longrightarrow> st_block_offset (snd (write_block aes st)) = 0) \<and>
     (\<exists>seg. nv_log (st_nv (snd (write_block aes st))) = nv_log (st_nv st) @ seg \<and>
        (let x = NvRead (st_block_start st) 16 in
         if nv_status (st_nv st) (nv_log (st_nv st)) x \<noteq> NV_NO_ERROR
         then seg = [x] \<and> fst (write_block aes st) = nv_status (st_nv st) (nv_log (st_nv st)) x
         else \<exists>y. seg = [x, y] \<and> \<not> nv_is_read y \<and> nv_address y = st_block_start st \<and>
                fst (write_block aes st) = nv_status (st_nv st) (nv_log (st_nv st) @ [x]) y))"
  by (simp add: write_block_eq [OF off] Let_def)

lemma read_block_trace:
  assumes off: "unat (st_block_offset st) \<le> 16"
  shows "nv_status (st_nv (snd (read_block aes st))) = nv_status (st_nv st) \<and>
     st_block_start (snd (read_block aes st)) = st_block_start st \<and>
     (fst (read_block aes st) = NV_NO_ERROR \<longrightarrow> st_block_offset (snd (read_block aes st)) = 0) \<and>
     nv_log (st_nv (snd (read_block aes st))) = nv_log (st_nv st) @ [NvRead (st_block_start st) 16] \<and>
     nv_mem (st_nv (snd (read_block aes st))) = nv_mem (st_nv st) \<and>
     fst (read_block aes st) = nv_status (st_nv st) (nv_log (st_nv st)) (NvRead (st_block_start st) 16)"
  by (simp add: read_block_eq [OF off] Let_def)

lemma write_loop_trace:
  assumes res: "block_loop (write_block aes) be st = Some (r, st')"
    and off: "unat (st_block_offset st) \<le> 16"
  shows "\<exists>tr. nv_log (st_nv st') = nv_log (st_nv st) @ tr \<and>
     write_trace (nv_status (st_nv st)) be (nv_log (st_nv st)) (st_block_start st) tr r"
proof -
  define P where "P = (\<lambda>body be (st :: adapter_state) (y :: NonVolatileReturn \<times> adapter_state).
     body = write_block aes \<longrightarrow> unat (st_block_offset st) \<le> 16 \<longrightarrow>
     (\<exists>tr. nv_log (st_nv (snd y)) = nv_log (st_nv st) @ tr \<and>
       write_trace (nv_status (st_nv st)) be (nv_log (st_nv st)) (st_block_start st) tr (fst y)))"
  have "P (write_block aes) be st (r, st')"
  proof (rule block_loop.raw_induct [OF _ res, where P = P])
    fix block_loop' body be st y
    assume ih: "\<And>body be st y. block_loop' body be st = Some y \<Longrightarrow> P body be st y"
      and eq: "(if st_block_start st \<le> be
         then case body st of
           (r, st) \<Rightarrow> if r \<noteq> NV_NO_ERROR then Some (r, st)
                      else block_loop' body be (st\<lparr>st_block_start := st_block_start st + 16\<rparr>)
         else Some (NV_NO_ERROR, st)) = Some y"
    show "P body be st y"
      unfolding P_def
    proof (intro impI)
      assume body: "body = write_block aes" and off: "unat (st_block_offset st) \<le> 16"
      let ?stat = "nv_status (st_nv st)" and ?h = "nv_log (st_nv st)" and ?b = "st_block_start st"
      let ?x = "NvRead ?b 16"
      note t = write_block_trace [OF off, of aes]
      show "\<exists>tr. nv_log (st_nv (snd y)) = ?h @ tr \<and> write_trace ?stat be ?h ?b tr (fst y)"
      proof (cases "?b \<le> be")
        case False
        then have "y = (NV_NO_ERROR, st)" using eq by simp
        then show ?thesis using False by (intro exI [of _ "[]"]) simp
      next
        case le: True
        show ?thesis
        proof (cases "fst (body st) \<noteq> NV_NO_ERROR")
          case True
          then have y: "y = write_block aes st" using eq le body by (auto split: prod.splits)
          from t obtain seg where seg: "nv_log (st_nv (snd (write_block aes st))) = ?h @ seg"
            and c: "if ?stat ?h ?x \<noteq> NV_NO_ERROR
               then seg = [?x] \<and> fst (write_block aes st) = ?stat ?h ?x
               else \<exists>y. seg = [?x, y] \<and> \<not> nv_is_read y \<and> nv_address y = ?b \<and>
                      fst (write_block aes st) = ?stat (?h @ [?x]) y"
            unfolding Let_def by blast
          have "write_trace ?stat be ?h ?b seg (fst (write_block aes st))"
          proof (cases "?stat ?h ?x \<noteq> NV_NO_ERROR")
            case True
            then show ?thesis using c le by simp
          next
            case False
            then obtain w where "seg = [?x, w]" "\<not> nv_is_read w" "nv_address w = ?b"
               "fst (write_block aes st) = ?stat (?h @ [?x]) w"
              using c by auto
            then show ?thesis using False le True body by simp
          qed
          then show ?thesis using seg y by blast
        next
          case False
          then have ok: "fst (write_block aes st) = NV_NO_ERROR" using body by simp
          have l': "block_loop' body be (next_block body st) = Some y"
            using eq le False by (auto simp: next_block_def split: prod.splits)
          have o': "unat (st_block_offset (next_block body st)) \<le> 16"
            using t ok by (simp add: next_block_def body)
          from ih [OF l'] body o'
          obtain tr where tr: "nv_log (st_nv (snd y)) = nv_log (st_nv (next_block body st)) @ tr"
            and wt: "write_trace (nv_status (st_nv (next_block body st))) be
                       (nv_log (st_nv (next_block body st))) (st_block_start (next_block body st)) tr (fst y)"
            unfolding P_def by blast
          from t ok obtain w where seg: "nv_log (st_nv (snd (write_block aes st))) = ?h @ [?x, w]"
            and r1: "?stat ?h ?x = NV_NO_ERROR"
            and w: "\<not> nv_is_read w" "nv_address w = ?b" "?stat (?h @ [?x]) w = NV_NO_ERROR"
            unfolding Let_def by (auto split: if_splits)
          have n: "nv_log (st_nv (next_block body st)) = ?h @ [?x, w]"
            "nv_status (st_nv (next_block body st)) = ?stat"
            "st_block_start (next_block body st) = ?b + 16"
            using seg t by (simp_all add: next_block_def body)
          have "write_trace ?stat be ?h ?b (?x # w # tr) (fst y)"
            using wt r1 w le unfolding n by simp
          then show ?thesis using tr unfolding n by (intro exI [of _ "?x # w # tr"]) simp
        qed
      qed
    qed
  qed
  then show ?thesis using off unfolding P_def by simp
qed

lemma read_loop_trace:
  assumes res: "block_loop (read_block aes) be st = Some (r, st')"
    and off: "unat (st_block_offset st) \<le> 16"
  shows "\<exists>tr. nv_log (st_nv st') = nv_log (st_nv st) @ tr \<and>
     nv_mem (st_nv st') = nv_mem (st_nv st) \<and>
     read_trace (nv_status (st_nv st)) be (nv_log (st_nv st)) (st_block_start st) tr r"
proof -
  define P where "P = (\<lambda>body be (st :: adapter_state) (y :: NonVolatileReturn \<times> adapter_state).
     body = read_block aes \<longrightarrow> unat (st_block_offset st) \<le> 16 \<longrightarrow>
     (\<exists>tr. nv_log (st_nv (snd y)) = nv_log (st_nv st) @ tr \<and>
       nv_mem (st_nv (snd y)) = nv_mem (st_nv st) \<and>
       read_trace (nv_status (st_nv st)) be (nv_log (st_nv st)) (st_block_start st) tr (fst y)))"
  have "P (read_block aes) be st (r, st')"
  proof (rule block_loop.raw_induct [OF _ res, where P = P])
    fix block_loop' body be st y
    assume ih: "\<And>body be st y. block_loop' body be st = Some y \<Longrightarrow> P body be st y"
      and eq: "(if st_block_start st \<le> be
         then case body st of
           (r, st) \<Rightarrow> if r \<noteq> NV_NO_ERROR then Some (r, st)
                      else block_loop' body be (st\<lparr>st_block_start := st_block_start st + 16\<rparr>)
         else Some (NV_NO_ERROR, st)) = Some y"
    show "P body be st y"
      unfolding P_def
    proof (intro impI)
      assume body: "body = read_block aes" and off: "unat (st_block_offset st) \<le> 16"
      let ?stat = "nv_status (st_nv st)" and ?h = "nv_log (st_nv st)" and ?b = "st_block_start st"
      let ?x = "NvRead ?b 16"
      note t = read_block_trace [OF off, of aes]
      show "\<exists>tr. nv_log (st_nv (snd y)) = ?h @ tr \<and> nv_mem (st_nv (snd y)) = nv_mem (st_nv st) \<and>
              read_trace ?stat be ?h ?b tr (fst y)"
      proof (cases "?b \<le> be")
        case False
        then have "y = (NV_NO_ERROR, st)" using eq by simp
        then show ?thesis using False by (intro exI [of _ "[]"]) simp
      next
        case le: True
        show ?thesis
        proof (cases "fst (body st) \<noteq> NV_NO_ERROR")
          case True
          then have y: "y = read_block aes st" using eq le body by (auto split: prod.splits)
          have "read_trace ?stat be ?h ?b [?x] (fst (read_block aes st))"
            using t True le body by simp
          moreover have "nv_log (st_nv (snd y)) = ?h @ [?x]" "nv_mem (st_nv (snd y)) = nv_mem (st_nv st)"
            using t y by simp_all
          ultimately show ?thesis unfolding y by blast
        next
          case False
          then have ok: "fst (read_block aes st) = NV_NO_ERROR" using body by simp
          have l': "block_loop' body be (next_block body st) = Some y"
            using eq le False by (auto simp: next_block_def split: prod.splits)
          have o': "unat (st_block_offset (next_block body st)) \<le> 16"
            using t ok by (simp add: next_block_def body)
          from ih [OF l'] body o'
          obtain tr where tr: "nv_log (st_nv (snd y)) = nv_log (st_nv (next_block body st)) @ tr"
            and mm: "nv_mem (st_nv (snd y)) = nv_mem (st_nv (next_block body st))"
            and wt: "read_trace (nv_status (st_nv (next_block body st))) be
                       (nv_log (st_nv (next_block body st))) (st_block_start (next_block body st)) tr (fst y)"
            unfolding P_def by blast
          have n: "nv_log (st_nv (next_block body st)) = ?h @ [?x]"
            "nv_status (st_nv (next_block body st)) = ?stat"
            "st_block_start (next_block body st) = ?b + 16"
            "nv_mem (st_nv (next_block body st)) = nv_mem (st_nv st)"
            using t by (simp_all add: next_block_def body)
          have "read_trace ?stat be ?h ?b (?x # tr) (fst y)"
            using wt t ok le unfolding n by simp
          then show ?thesis using tr mm unfolding n by (intro exI [of _ "?x # tr"]) simp
        qed
      qed
    qed
  qed
  then show ?thesis using off unfolding P_def by simp
qed




lemma xor_cipher_inverts: "aes_inverts xor_cipher"
  by (simp add: aes_inverts_def xor_cipher_def xor16Bytes_cancel)

subsection \<open>The key state\<close>

lemma fold_fill: "length xs = 16 \<Longrightarrow> fold (\<lambda>i xs. xs[i := c]) [0..<16] xs = replicate 16 c"
proof (rule nth_equalityI)
  show "length xs = 16 \<Longrightarrow> length (fold (\<lambda>i xs. xs[i := c]) [0..<16] xs) = length (replicate 16 c)"
    by simp
next
  fix i assume l: "length xs = 16" and "i < length (fold (\<lambda>i xs. xs[i := c]) [0..<16] xs)"
  then have "i < 16" by simp
  then show "fold (\<lambda>i xs. xs[i := c]) [0..<16] xs ! i = replicate 16 c ! i"
    using l fold_upd_nth [where g = "\<lambda>i x. c" and n = 16 and r = xs and j = i]
    by (simp del: upt_rec_numeral)
qed

lemma fold_fill_keys:
  "fold (\<lambda>i ks. ks\<lparr>nv_storage_tweak_key := (nv_storage_tweak_key ks)[i := c],
                    nv_storage_encrypt_key := (nv_storage_encrypt_key ks)[i := c]\<rparr>) [0..<n] ks =
   ks\<lparr>nv_storage_tweak_key := fold (\<lambda>i xs. xs[i := c]) [0..<n] (nv_storage_tweak_key ks),
      nv_storage_encrypt_key := fold (\<lambda>i xs. xs[i := c]) [0..<n] (nv_storage_encrypt_key ks)\<rparr>"
  by (induction n) simp_all

lemma clearEncryptionKey_eq:
  assumes "length (nv_storage_encrypt_key ks) = 16" "length (nv_storage_tweak_key ks) = 16"
  shows "clearEncryptionKey ks =
    \<lparr>nv_storage_encrypt_key = replicate 16 0, nv_storage_tweak_key = replicate 16 0\<rparr>"
  using assms
  by (simp add: clearEncryptionKey_def Let_def fold_fill_keys fold_fill del: upt_rec_numeral)

lemma key_or_fold:
  "fold (\<lambda>i r. let r = r OR e ! i; r = r OR t ! i in r) [0..<n] (r0 :: uint8_t) = 0 \<longleftrightarrow>
   r0 = 0 \<and> (\<forall>i<n. e ! i = 0 \<and> t ! i = 0)"
  by (induction n) (auto simp: Let_def less_Suc_eq or_eq_0_iff)

lemma isEncryptionKeyNonZero_iff:
  "isEncryptionKeyNonZero ks = 0 \<longleftrightarrow>
   (\<forall>i<16. nv_storage_encrypt_key ks ! i = 0 \<and> nv_storage_tweak_key ks ! i = 0)"
  unfolding isEncryptionKeyNonZero_def by (simp only: key_or_fold) simp

lemma set_tweak_fold:
  "nv_storage_tweak_key (fold (\<lambda>i ks. ks\<lparr>nv_storage_encrypt_key := (nv_storage_encrypt_key ks)[i := f i]\<rparr>) [0..<n] ks)
     = nv_storage_tweak_key ks"
  by (induction n) simp_all

lemma set_tweak_fold2:
  "nv_storage_tweak_key (fold (\<lambda>i ks. ks\<lparr>nv_storage_tweak_key := (nv_storage_tweak_key ks)[i := f i]\<rparr>) [0..<n] ks)
     = fold (\<lambda>i xs. xs[i := f i]) [0..<n] (nv_storage_tweak_key ks)"
  by (induction n) simp_all

lemma setEncryptionKey_tweak:
  assumes "length (nv_storage_tweak_key ks) = 16" "i < 16"
  shows "nv_storage_tweak_key (setEncryptionKey ks inp) ! i = inp ! (i + 16)"
  using assms fold_upd_nth [where g = "\<lambda>i x. inp ! (i + 16)" and n = 16
      and r = "nv_storage_tweak_key ks" and j = i]
  by (simp add: setEncryptionKey_def Let_def set_tweak_fold set_tweak_fold2 del: upt_rec_numeral)

subsection \<open>The round trip through the adapter\<close>

lemma adapter_block_end_aligned [simp]: "adapter_block_end a len AND 0xf = 0"
  by (simp add: adapter_block_end_def)

lemma block_of_address: "(a AND 0xfffffff0) + of_nat (unat a mod 16 + j) = (a::uint32_t) + of_nat j"
proof -
  have "(of_nat (unat a mod 16) :: uint32_t) = a AND 0xf"
    using unat_low4 [of a] by (metis of_nat_unat ucast_id)
  moreover have "(a AND 0xfffffff0) + (a AND 0xf) = a"
    by (simp add: high28_eq)
  ultimately show ?thesis by (simp add: add.assoc [symmetric])
qed

lemma adapter_range:
  assumes len: "len \<noteq> 0" and bound: "unat (a::uint32_t) + unat (len::uint8_t) \<le> 2 ^ 32"
  shows "unat (a AND 0xfffffff0) \<le> unat (adapter_block_end a len)"
    and "unat (adapter_block_end a len) < unat a + unat len"
    and "unat a + unat len \<le> unat (adapter_block_end a len) + 16"
proof -
  define x where "x = unat a + unat len - 1"
  have l: "0 < unat len" using len by (simp add: unat_gt_0)
  have e: "unat (adapter_block_end a len) = 16 * (x div 16)"
    unfolding x_def using len bound by (rule unat_block_end)
  have b: "unat (a AND 0xfffffff0) = 16 * (unat a div 16)" by (rule unat_high28)
  have "unat a \<le> x" using l by (simp add: x_def)
  then have "unat a div 16 \<le> x div 16" by (rule div_le_mono)
  then show "unat (a AND 0xfffffff0) \<le> unat (adapter_block_end a len)" unfolding e b by simp
  have "16 * (x div 16) \<le> x" by simp
  then show "unat (adapter_block_end a len) < unat a + unat len" unfolding e using l by (simp add: x_def)
  have "x < 16 * (x div 16) + 16"
    using mod_less_divisor [of 16 x] div_mult_mod_eq [of x 16] by linarith
  then show "unat a + unat len \<le> unat (adapter_block_end a len) + 16"
    unfolding e using l by (simp add: x_def)
qed

lemma block_of_address_split:
  "(a AND 0xfffffff0) + (of_nat (unat a mod 16) + of_nat j) = (a::uint32_t) + of_nat j"
  using block_of_address [of a j] by simp

subsection \<open>Calls that never return\<close>

lemma plus16_low4: "((b::uint32_t) + 16) AND 0xf = b AND 0xf"
proof -
  have d: "(16::nat) dvd 4294967296" by simp
  have "unat (b + 16) mod 16 = ((unat b + 16) mod 4294967296) mod 16"
    by (simp add: unat_word_ariths)
  also have "\<dots> = (unat b + 16) mod 16" using d by (rule mod_mod_cancel)
  also have "\<dots> = unat b mod 16" by simp
  finally have "unat ((b + 16) AND 0xf) = unat (b AND 0xf)" by (simp add: unat_low4)
  then show ?thesis by (simp only: word_unat_eq_iff)
qed

lemma aligned_le_last: "(b::uint32_t) AND 0xf = 0 \<Longrightarrow> b \<le> 0xfffffff0"
  using aligned_le_top [of b] by (simp add: word_le_nat_alt)

lemma write_next_block:
  assumes off: "unat (st_block_offset st) \<le> 16" and ok: "fst (write_block aes st) = NV_NO_ERROR"
  shows "st_block_start (next_block (write_block aes) st) = st_block_start st + 16"
    and "st_block_offset (next_block (write_block aes) st) = 0"
    and "nv_status (st_nv (next_block (write_block aes) st)) = nv_status (st_nv st)"
  using write_block_trace [OF off, of aes] ok by (simp_all add: next_block_def)

lemma read_next_block:
  assumes off: "unat (st_block_offset st) \<le> 16" and ok: "fst (read_block aes st) = NV_NO_ERROR"
  shows "st_block_start (next_block (read_block aes) st) = st_block_start st + 16"
    and "st_block_offset (next_block (read_block aes) st) = 0"
    and "nv_status (st_nv (next_block (read_block aes) st)) = nv_status (st_nv st)"
  using read_block_trace [OF off, of aes] ok by (simp_all add: next_block_def)

lemma write_loop_diverges:
  assumes al: "st_block_start st AND 0xf = 0" and off: "unat (st_block_offset st) \<le> 16"
    and ok: "nv_status (st_nv st) = (\<lambda>h x. NV_NO_ERROR)"
  shows "block_loop (write_block aes) 0xfffffff0 st = None"
proof (rule block_loop_diverges [where I = "\<lambda>st. st_block_start st AND 0xf = 0 \<and>
      unat (st_block_offset st) \<le> 16 \<and> nv_status (st_nv st) = (\<lambda>h x. NV_NO_ERROR)"])
  show "st_block_start st AND 0xf = 0 \<and> unat (st_block_offset st) \<le> 16 \<and>
      nv_status (st_nv st) = (\<lambda>h x. NV_NO_ERROR)"
    using al off ok by simp
next
  fix s :: adapter_state
  assume i: "st_block_start s AND 0xf = 0 \<and> unat (st_block_offset s) \<le> 16 \<and>
      nv_status (st_nv s) = (\<lambda>h x. NV_NO_ERROR)"
  then have o: "unat (st_block_offset s) \<le> 16" by simp
  have ok: "fst (write_block aes s) = NV_NO_ERROR"
    using i by (intro write_block_succeeds) simp_all
  show "st_block_start s \<le> 0xfffffff0 \<and> fst (write_block aes s) = NV_NO_ERROR \<and>
     (st_block_start (next_block (write_block aes) s) AND 0xf = 0 \<and>
      unat (st_block_offset (next_block (write_block aes) s)) \<le> 16 \<and>
      nv_status (st_nv (next_block (write_block aes) s)) = (\<lambda>h x. NV_NO_ERROR))"
    using i ok aligned_le_last write_next_block [OF o ok] by (simp add: plus16_low4)
qed

subsection \<open>Locality of a write\<close>

lemma write_block_offset_le:
  assumes "unat (st_block_offset st) \<le> 16"
  shows "unat (st_block_offset (snd (write_block aes st))) \<le> 16"
  using assms by (simp add: write_block_eq [OF assms] Let_def)

lemma block_end_wrapped:
  assumes len: "len \<noteq> 0" and over: "2 ^ 32 < unat (a::uint32_t) + unat (len::uint8_t)"
  shows "\<not> a AND 0xfffffff0 \<le> adapter_block_end a len"
proof -
  define N :: nat where "N = 2 ^ 32"
  have N: "N = 4294967296" by (simp add: N_def)
  have l: "0 < unat len" using len by (simp add: unat_gt_0)
  have l256: "unat len < 256" using unsigned_less [of len, where 'a = nat] by simp
  then have ul: "unat (ucast len :: uint32_t) = unat len"
    by (simp add: unsigned_ucast_eq take_bit_eq_mod)
  have w: "unat (ucast len - 1 :: uint32_t) = unat len - 1"
    using l ul by (simp add: unat_minus_one unat_eq_0 [symmetric] del: unat_eq_0)
  have aN: "unat a < N" using unsigned_less [of a, where 'a = nat] by (simp add: N)
  have ov: "N < unat a + unat len" using over by (simp add: N)
  have "unat (a + (ucast len - 1)) = (unat a + (unat len - 1)) mod N"
    by (simp add: unat_word_ariths w N)
  also have "\<dots> = unat a + (unat len - 1) - N"
    using ov aN l256 by (simp add: mod_if N)
  finally have z: "unat (a + ucast len - 1) < 255"
    using l256 aN by (simp add: algebra_simps N)
  have "unat (adapter_block_end a len) \<le> unat (a + ucast len - 1)"
    by (simp add: adapter_block_end_def unat_high28)
  then have e: "unat (adapter_block_end a len) < 255" using z by simp
  have "unat a \<le> 16 * (unat a div 16) + 15"
    using mod_less_divisor [of 16 "unat a"] div_mult_mod_eq [of "unat a" 16] by linarith
  then have "255 < unat (a AND 0xfffffff0)"
    using ov l256 by (simp add: unat_high28 N)
  then show ?thesis using e by (simp add: word_le_nat_alt)
qed

lemma encrypted_write_returns:
  assumes aes: "aes_inverts aes"
    and len: "len \<noteq> 0"
    and bound: "unat a + unat len \<le> 0xFFFFFFF0"
    and ok: "nv_status nv = (\<lambda>h x. NV_NO_ERROR)"
  shows "\<exists>nv'. encryptedNonVolatileWrite aes ks nv B a len = Some (NV_NO_ERROR, nv')"
proof -
  let ?be = "adapter_block_end a len"
  let ?st0 = "adapter_init ks nv B a len"
  have b32: "unat a + unat len \<le> 2 ^ 32" using bound by simp
  note rng = adapter_range [OF len b32]
  have top: "unat ?be + 16 < 2 ^ 32" using rng(2) bound by simp
  have l: "0 < unat len" using len by (simp add: unat_gt_0)
  have cur: "unat (a AND 0xfffffff0) + unat a mod 16 = unat a"
    by (simp add: unat_high28)
  have "\<exists>st'. block_loop (write_block aes) ?be ?st0 = Some (NV_NO_ERROR, st')"
    using rng l ok
    by (intro write_loop_returns [OF aes _ top, where ks = ks])
       (simp_all add: adapter_init_simps adapter_init_ok cur)
  then show ?thesis by (auto simp: encryptedNonVolatileWrite_def)
qed

subsection \<open>The accesses of a call\<close>

lemma write_trace_answers:
  "write_trace stat be h b tr r \<Longrightarrow> stops_at_first_error stat h tr r"
proof (induction stat be h b tr r rule: write_trace.induct)
  case (1 stat be h b r)
  then show ?case by (simp add: stops_at_first_error_def)
next
  case (2 stat be h b x r)
  then show ?case by (auto simp: stops_at_first_error_def)
next
  case (3 stat be h b x y tr r)
  show ?case
  proof (cases "stat (h @ [x]) y = NV_NO_ERROR")
    case True
    with "3.prems" have "write_trace stat be (h @ [x, y]) (b + 16) tr r" by auto
    with True have ih: "stops_at_first_error stat (h @ [x, y]) tr r" by (rule "3.IH")
    have x: "stat h x = NV_NO_ERROR" using "3.prems" by auto
    show ?thesis
    proof (cases "r = NV_NO_ERROR")
      case r: True
      then show ?thesis using ih x True by (simp add: stops_at_first_error_def)
    next
      case r: False
      then have "tr \<noteq> []" using ih by (auto simp: stops_at_first_error_def)
      then obtain z zs where "tr = z # zs" by (cases tr) auto
      then show ?thesis using ih x True r by (simp add: stops_at_first_error_def)
    qed
  next
    case False
    with "3.prems" show ?thesis by (auto simp: stops_at_first_error_def)
  qed
qed

lemma read_trace_answers:
  "read_trace stat be h b tr r \<Longrightarrow> stops_at_first_error stat h tr r"
proof (induction stat be h b tr r rule: read_trace.induct)
  case (1 stat be h b r)
  then show ?case by (simp add: stops_at_first_error_def)
next
  case (2 stat be h b x tr r)
  show ?case
  proof (cases "stat h x = NV_NO_ERROR")
    case True
    with "2.prems" have "read_trace stat be (h @ [x]) (b + 16) tr r" by auto
    with True have ih: "stops_at_first_error stat (h @ [x]) tr r" by (rule "2.IH")
    show ?thesis
    proof (cases "r = NV_NO_ERROR")
      case r: True
      then show ?thesis using ih True by (simp add: stops_at_first_error_def)
    next
      case r: False
      then have "tr \<noteq> []" using ih by (auto simp: stops_at_first_error_def)
      then obtain z zs where "tr = z # zs" by (cases tr) auto
      then show ?thesis using ih True r by (simp add: stops_at_first_error_def)
    qed
  next
    case False
    with "2.prems" show ?thesis by (auto simp: stops_at_first_error_def)
  qed
qed

lemma read_trace_order: "read_trace stat be h b tr r \<Longrightarrow> read_order b tr"
proof (induction stat be h b tr r rule: read_trace.induct)
  case (1 stat be h b r)
  then show ?case by (simp add: read_order_def)
next
  case (2 stat be h b x tr r)
  have x: "x = NvRead b 16" using "2.prems" by auto
  have tl: "read_order (b + 16) tr"
  proof (cases "stat h x = NV_NO_ERROR")
    case True
    with "2.prems" have "read_trace stat be (h @ [x]) (b + 16) tr r" by auto
    with True show ?thesis by (rule "2.IH")
  next
    case False
    with "2.prems" show ?thesis by (auto simp: read_order_def)
  qed
  show ?case
    unfolding read_order_def
  proof (intro allI impI)
    fix i assume i: "i < length (x # tr)"
    show "(x # tr) ! i = NvRead (b + 16 * of_nat i) 16"
    proof (cases i)
      case 0
      then show ?thesis using x by simp
    next
      case (Suc k)
      then have "k < length tr" using i by simp
      then have "tr ! k = NvRead (b + 16 + 16 * of_nat k) 16"
        using tl by (simp add: read_order_def)
      then show ?thesis using Suc by (simp add: algebra_simps)
    qed
  qed
qed

lemma write_trace_order: "write_trace stat be h b tr r \<Longrightarrow> write_order b tr"
proof (induction stat be h b tr r rule: write_trace.induct)
  case (1 stat be h b r)
  then show ?case by (simp add: write_order_def)
next
  case (2 stat be h b x r)
  then show ?case by (simp add: write_order_def)
next
  case (3 stat be h b x y tr r)
  have x: "x = NvRead b 16" and y: "\<not> nv_is_read y" "nv_address y = b"
    using "3.prems" by auto
  have tl: "write_order (b + 16) tr"
  proof (cases "stat (h @ [x]) y = NV_NO_ERROR")
    case True
    with "3.prems" have "write_trace stat be (h @ [x, y]) (b + 16) tr r" by auto
    with True show ?thesis by (rule "3.IH")
  next
    case False
    with "3.prems" show ?thesis by (auto simp: write_order_def)
  qed
  show ?case
    unfolding write_order_def
  proof (intro allI impI)
    fix i assume i: "i < length (x # y # tr)"
    consider "i = 0" | "i = 1" | k where "i = Suc (Suc k)"
      by (cases i) (auto, case_tac nat, auto)
    then show "if even i then (x # y # tr) ! i = NvRead (b + 16 * of_nat (i div 2)) 16
        else \<not> nv_is_read ((x # y # tr) ! i) \<and>
             nv_address ((x # y # tr) ! i) = b + 16 * of_nat (i div 2)"
    proof cases
      case 1
      then show ?thesis using x by simp
    next
      case 2
      then show ?thesis using y by simp
    next
      case 3
      then have k: "k < length tr" using i by simp
      have d: "Suc (Suc k) div 2 = Suc (k div 2)" by simp
      have "if even k then tr ! k = NvRead (b + 16 + 16 * of_nat (k div 2)) 16
        else \<not> nv_is_read (tr ! k) \<and> nv_address (tr ! k) = b + 16 + 16 * of_nat (k div 2)"
        using tl k by (simp add: write_order_def)
      then show ?thesis unfolding 3 d by (simp add: algebra_simps)
    qed
  qed
qed

lemma read_block_offset_le:
  assumes "unat (st_block_offset st) \<le> 16"
  shows "unat (st_block_offset (snd (read_block aes st))) \<le> 16"
  using assms by (simp add: read_block_eq [OF assms] Let_def)




lemma init_offset_le: "unat (st_block_offset (adapter_init ks nv data a len)) \<le> 16"
  by (simp add: adapter_init_simps)

subsection \<open>A store that fails at one block\<close>

lemma plus16_neq: "(b::uint32_t) + 16 \<noteq> b"
  by simp





subsection \<open>Calls of length zero\<close>

lemma block_end_zero_length: "adapter_block_end a 0 = (a - 1) AND 0xfffffff0"
  by (simp add: adapter_block_end_def)

lemma unat_minus_1: "(a::uint32_t) \<noteq> 0 \<Longrightarrow> unat (a - 1) = unat a - 1"
  by (simp add: unat_minus_one)

lemma block_end_before:
  assumes "(a::uint32_t) \<noteq> 0" "a AND 0xf = 0"
  shows "\<not> a AND 0xfffffff0 \<le> adapter_block_end a 0"
proof -
  have p: "0 < unat a" using assms(1) by (simp add: unat_gt_0)
  have "unat (adapter_block_end a 0) = 16 * ((unat a - 1) div 16)"
    by (simp add: block_end_zero_length unat_high28 unat_minus_1 [OF assms(1)])
  also have "\<dots> \<le> unat a - 1" by simp
  also have "\<dots> < unat a" using p by simp
  finally have "unat (adapter_block_end a 0) < unat a" .
  moreover have "a AND 0xfffffff0 = a" using assms(2) by (simp add: high28_eq)
  ultimately show ?thesis by (simp add: word_le_nat_alt)
qed

lemma block_end_same:
  assumes "(a::uint32_t) AND 0xf \<noteq> 0"
  shows "adapter_block_end a 0 = a AND 0xfffffff0"
proof -
  have "unat (a AND 0xf) \<noteq> 0" using assms by (simp only: unat_eq_0 not_False_eq_True)
  then have m: "unat a mod 16 \<noteq> 0" by (simp add: unat_low4)
  then have a0: "a \<noteq> 0" by auto
  define q where "q = unat a div 16"
  have ua: "unat a = 16 * q + unat a mod 16" by (simp add: q_def)
  have "16 * ((unat a - 1) div 16) = 16 * q"
    unfolding div16_unique using ua m mod_less_divisor [of 16 "unat a"] by linarith
  then have "unat (adapter_block_end a 0) = unat (a AND 0xfffffff0)"
    by (simp add: block_end_zero_length unat_high28 unat_minus_1 [OF a0] q_def)
  then show ?thesis by (simp only: word_unat_eq_iff)
qed

lemma write_block_mem_failed:
  assumes off: "unat (st_block_offset st) \<le> 16" and r: "fst (write_block aes st) \<noteq> NV_NO_ERROR"
  shows "nv_mem (st_nv (snd (write_block aes st))) = nv_mem (st_nv st)"
  using r by (simp add: write_block_eq [OF off] Let_def split: if_splits)

lemma write_block_data:
  assumes off: "unat (st_block_offset st) \<le> 16"
  shows "st_data (snd (write_block aes st)) = st_data st"
  by (simp add: write_block_eq [OF off] Let_def)

lemma read_block_data_zero:
  assumes off: "unat (st_block_offset st) \<le> 16" and l: "st_length st = 0"
  shows "st_data (snd (read_block aes st)) = st_data st"
proof -
  have "copy_out (st_data st) (st_pos st) pt k 0 = st_data st" for pt k
    by (rule nth_equalityI) (auto simp: copy_out_def)
  then show ?thesis
    by (simp add: read_block_eq [OF off] Let_def copy_count_def l)
qed

lemma not_read_cases: "\<not> nv_is_read y \<Longrightarrow> y = NvWrite (nv_address y) (case y of NvWrite a d \<Rightarrow> d | NvRead a l \<Rightarrow> [])"
  by (cases y) simp_all

lemma one_block_loop:
  assumes b: "st_block_start st = be" and top: "unat be + 16 < 2 ^ 32"
    and nx: "fst (body st) = NV_NO_ERROR \<Longrightarrow> st_block_start (next_block body st) = be + 16"
  shows "block_loop body be st =
     Some (if fst (body st) \<noteq> NV_NO_ERROR then body st else (NV_NO_ERROR, next_block body st))"
proof (cases "fst (body st) = NV_NO_ERROR")
  case False
  then show ?thesis by (subst block_loop_unfold) (simp add: b)
next
  case True
  have "unat (be + 16) = unat be + 16" using top by (rule unat_plus16)
  then have "\<not> be + 16 \<le> be" by (simp add: word_le_nat_alt)
  then have "block_loop body be (next_block body st) = Some (NV_NO_ERROR, next_block body st)"
    using nx [OF True] by (subst block_loop_unfold) simp
  then show ?thesis using True by (subst block_loop_unfold) (simp add: b)
qed

lemma below_last_block:
  assumes "(a::uint32_t) < 0xfffffff0"
  shows "unat (a AND 0xfffffff0) + 16 < 2 ^ 32"
proof -
  have "unat a < 4294967280" using assms by (simp add: word_less_nat_alt)
  moreover have "16 * (unat a div 16) \<le> unat a" by simp
  ultimately show ?thesis by (simp add: unat_high28)
qed

lemma read_loop_diverges:
  assumes al: "st_block_start st AND 0xf = 0" and off: "unat (st_block_offset st) \<le> 16"
    and ok: "nv_status (st_nv st) = (\<lambda>h x. NV_NO_ERROR)"
  shows "block_loop (read_block aes) 0xfffffff0 st = None"
proof (rule block_loop_diverges [where I = "\<lambda>st. st_block_start st AND 0xf = 0 \<and>
      unat (st_block_offset st) \<le> 16 \<and> nv_status (st_nv st) = (\<lambda>h x. NV_NO_ERROR)"])
  show "st_block_start st AND 0xf = 0 \<and> unat (st_block_offset st) \<le> 16 \<and>
      nv_status (st_nv st) = (\<lambda>h x. NV_NO_ERROR)"
    using al off ok by simp
next
  fix s :: adapter_state
  assume i: "st_block_start s AND 0xf = 0 \<and> unat (st_block_offset s) \<le> 16 \<and>
      nv_status (st_nv s) = (\<lambda>h x. NV_NO_ERROR)"
  then have o: "unat (st_block_offset s) \<le> 16" by simp
  have ok: "fst (read_block aes s) = NV_NO_ERROR"
    using i read_block_trace [OF o, of aes] by simp
  show "st_block_start s \<le> 0xfffffff0 \<and> fst (read_block aes s) = NV_NO_ERROR \<and>
     (st_block_start (next_block (read_block aes) s) AND 0xf = 0 \<and>
      unat (st_block_offset (next_block (read_block aes) s)) \<le> 16 \<and>
      nv_status (st_nv (next_block (read_block aes) s)) = (\<lambda>h x. NV_NO_ERROR))"
    using i ok aligned_le_last read_next_block [OF o ok] by (simp add: plus16_low4)
qed

lemma write_loop_never_ok:
  assumes res: "block_loop (write_block aes) 0xfffffff0 st = Some (r, st')"
    and al: "st_block_start st AND 0xf = 0" and off: "unat (st_block_offset st) \<le> 16"
  shows "r \<noteq> NV_NO_ERROR"
proof (rule block_loop_never_ok [where J = "\<lambda>st. st_block_start st AND 0xf = 0 \<and>
          unat (st_block_offset st) \<le> 16", OF _ res])
  show "st_block_start st AND 0xf = 0 \<and> unat (st_block_offset st) \<le> 16"
    using al off by simp
next
  fix s :: adapter_state
  assume j: "st_block_start s AND 0xf = 0 \<and> unat (st_block_offset s) \<le> 16"
  then have o: "unat (st_block_offset s) \<le> 16" by simp
  show "st_block_start s \<le> 0xfffffff0 \<and>
      (st_block_start (next_block (write_block aes) s) AND 0xf = 0 \<and>
       unat (st_block_offset (next_block (write_block aes) s)) \<le> 16)"
    using j aligned_le_last [of "st_block_start s"] write_block_trace [OF o, of aes]
      write_block_offset_le [OF o, of aes]
    by (simp add: next_block_def plus16_low4)
qed

lemma read_loop_never_ok:
  assumes res: "block_loop (read_block aes) 0xfffffff0 st = Some (r, st')"
    and al: "st_block_start st AND 0xf = 0" and off: "unat (st_block_offset st) \<le> 16"
  shows "r \<noteq> NV_NO_ERROR"
proof (rule block_loop_never_ok [where J = "\<lambda>st. st_block_start st AND 0xf = 0 \<and>
          unat (st_block_offset st) \<le> 16", OF _ res])
  show "st_block_start st AND 0xf = 0 \<and> unat (st_block_offset st) \<le> 16"
    using al off by simp
next
  fix s :: adapter_state
  assume j: "st_block_start s AND 0xf = 0 \<and> unat (st_block_offset s) \<le> 16"
  then have o: "unat (st_block_offset s) \<le> 16" by simp
  show "st_block_start s \<le> 0xfffffff0 \<and>
      (st_block_start (next_block (read_block aes) s) AND 0xf = 0 \<and>
       unat (st_block_offset (next_block (read_block aes) s)) \<le> 16)"
    using j aligned_le_last [of "st_block_start s"] read_block_trace [OF o, of aes]
      read_block_offset_le [OF o, of aes]
    by (simp add: next_block_def plus16_low4)
qed

lemma zero_length_aligned:
  assumes "a \<noteq> 0" "a AND 0xf = 0"
  shows "encryptedNonVolatileWrite aes ks nv B a 0 = Some (NV_NO_ERROR, nv)"
    and "encryptedNonVolatileRead aes ks nv buf a 0 = Some (NV_NO_ERROR, buf, nv)"
  using block_end_before [OF assms]
  by (simp_all add: encryptedNonVolatileWrite_def encryptedNonVolatileRead_def
      block_loop_unfold adapter_init_simps)

lemma zero_length_inside_write:
  assumes m: "a AND 0xf \<noteq> 0" and a: "a < 0xfffffff0"
  shows "\<exists>r nv'. encryptedNonVolatileWrite aes ks nv B a 0 = Some (r, nv') \<and>
     (if nv_status nv (nv_log nv) (NvRead (a AND 0xfffffff0) 16) \<noteq> NV_NO_ERROR
      then r = nv_status nv (nv_log nv) (NvRead (a AND 0xfffffff0) 16) \<and>
           nv_log nv' = nv_log nv @ [NvRead (a AND 0xfffffff0) 16]
      else \<exists>d. nv_log nv' = nv_log nv @ [NvRead (a AND 0xfffffff0) 16, NvWrite (a AND 0xfffffff0) d] \<and>
               r = nv_status nv (nv_log nv @ [NvRead (a AND 0xfffffff0) 16]) (NvWrite (a AND 0xfffffff0) d)) \<and>
     (aes_inverts aes \<longrightarrow>
        (\<forall>x. plain_byte aes ks (nv_mem nv') x = plain_byte aes ks (nv_mem nv) x))"
proof -
  let ?b = "a AND 0xfffffff0"
  let ?st0 = "adapter_init ks nv B a 0"
  let ?res = "write_block aes ?st0"
  have o: "unat (st_block_offset ?st0) \<le> 16" by (rule init_offset_le)
  have o': "unat (st_block_offset ?st0) < 16" by (simp add: adapter_init_simps)
  have loop: "block_loop (write_block aes) ?b ?st0 =
      Some (if fst ?res \<noteq> NV_NO_ERROR then ?res else (NV_NO_ERROR, next_block (write_block aes) ?st0))"
    using write_next_block(1) [OF o, of aes]
    by (intro one_block_loop below_last_block [OF a]) (simp_all add: adapter_init_simps)
  have w: "encryptedNonVolatileWrite aes ks nv B a 0 = Some (fst ?res, st_nv (snd ?res))"
    by (simp add: encryptedNonVolatileWrite_def block_end_same [OF m] loop next_block_def
        split_beta)
  note t = write_block_trace [OF o, of aes]
  have tr: "if nv_status nv (nv_log nv) (NvRead ?b 16) \<noteq> NV_NO_ERROR
      then fst ?res = nv_status nv (nv_log nv) (NvRead ?b 16) \<and>
           nv_log (st_nv (snd ?res)) = nv_log nv @ [NvRead ?b 16]
      else \<exists>d. nv_log (st_nv (snd ?res)) = nv_log nv @ [NvRead ?b 16, NvWrite ?b d] \<and>
               fst ?res = nv_status nv (nv_log nv @ [NvRead ?b 16]) (NvWrite ?b d)"
  proof (cases "nv_status nv (nv_log nv) (NvRead ?b 16) \<noteq> NV_NO_ERROR")
    case True
    then show ?thesis using t by (auto simp: adapter_init_simps Let_def)
  next
    case False
    with t obtain y where y: "nv_log (st_nv (snd ?res)) = nv_log nv @ [NvRead ?b 16, y]"
        "\<not> nv_is_read y" "nv_address y = ?b"
        "fst ?res = nv_status nv (nv_log nv @ [NvRead ?b 16]) y"
      by (auto simp: adapter_init_simps Let_def)
    from not_read_cases [OF y(2)] obtain d where "y = NvWrite ?b d" unfolding y(3) by blast
    then show ?thesis using False y by auto
  qed
  have c: "plain_byte aes ks (nv_mem (st_nv (snd ?res))) x = plain_byte aes ks (nv_mem nv) x"
    if aes: "aes_inverts aes" for x
  proof (cases "fst ?res = NV_NO_ERROR")
    case True
    have k: "copy_count ?st0 = 0" by (simp add: copy_count_def adapter_init_simps)
    from write_block_sound [OF aes adapter_init_ok _ o' True]
    obtain st1 where r: "?res = (NV_NO_ERROR, st1)"
      and p: "\<forall>x. plain_byte aes ks (nv_mem (st_nv st1)) x =
         (if unat (st_block_start ?st0) + unat (st_block_offset ?st0) \<le> unat x \<and>
             unat x < unat (st_block_start ?st0) + unat (st_block_offset ?st0) + copy_count ?st0
          then st_data ?st0 ! (st_pos ?st0 + (unat x - (unat (st_block_start ?st0) + unat (st_block_offset ?st0))))
          else plain_byte aes ks (nv_mem (st_nv ?st0)) x)"
      by (auto simp: adapter_init_simps)
    have n: "\<not> (c \<le> unat x \<and> unat x < c + copy_count ?st0)" for c
      unfolding k by simp
    have "plain_byte aes ks (nv_mem (st_nv st1)) x = plain_byte aes ks (nv_mem (st_nv ?st0)) x"
      using p [rule_format, of x] unfolding if_not_P [OF n] .
    then show ?thesis by (simp add: r adapter_init_simps)
  next
    case False
    then show ?thesis using write_block_mem_failed [OF o False] by (simp add: adapter_init_simps)
  qed
  show ?thesis using w tr c by blast
qed

lemma zero_length_inside_read:
  assumes m: "a AND 0xf \<noteq> 0" and a: "a < 0xfffffff0"
  shows "\<exists>nv'. encryptedNonVolatileRead aes ks nv buf a 0 =
       Some (nv_status nv (nv_log nv) (NvRead (a AND 0xfffffff0) 16), buf, nv') \<and>
     nv_log nv' = nv_log nv @ [NvRead (a AND 0xfffffff0) 16] \<and> nv_mem nv' = nv_mem nv"
proof -
  let ?b = "a AND 0xfffffff0"
  let ?st0 = "adapter_init ks nv buf a 0"
  let ?res = "read_block aes ?st0"
  have o: "unat (st_block_offset ?st0) \<le> 16" by (rule init_offset_le)
  have loop: "block_loop (read_block aes) ?b ?st0 =
      Some (if fst ?res \<noteq> NV_NO_ERROR then ?res else (NV_NO_ERROR, next_block (read_block aes) ?st0))"
    using read_next_block(1) [OF o, of aes]
    by (intro one_block_loop below_last_block [OF a]) (simp_all add: adapter_init_simps)
  have w: "encryptedNonVolatileRead aes ks nv buf a 0 =
      Some (fst ?res, st_data (snd ?res), st_nv (snd ?res))"
    by (simp add: encryptedNonVolatileRead_def block_end_same [OF m] loop next_block_def
        split_beta)
  have d: "st_data (snd ?res) = buf"
    using read_block_data_zero [OF o, of aes] by (simp add: adapter_init_simps)
  show ?thesis using w d read_block_trace [OF o, of aes] by (simp add: adapter_init_simps)
qed

subsection \<open>The states at the head of an iteration\<close>





subsection \<open>The iterations as the specification describes them\<close>




subsection \<open>The state after a number of iterations\<close>

lemma loop_state_0 [simp]: "loop_state body st0 0 = st0"
  by (simp add: loop_state_def)

lemma loop_state_Suc [simp]:
  "loop_state body st0 (Suc k) = next_block body (loop_state body st0 k)"
  by (simp add: loop_state_def)

lemma loop_state_passes:
  "(\<forall>j<k. st_block_start (loop_state body st0 j) \<le> be \<and>
           fst (body (loop_state body st0 j)) = NV_NO_ERROR) \<Longrightarrow>
   block_loop body be st0 = block_loop body be (loop_state body st0 k)"
proof (induction k)
  case 0
  show ?case by simp
next
  case (Suc k)
  then have "block_loop body be st0 = block_loop body be (loop_state body st0 k)" by simp
  also have "\<dots> = block_loop body be (next_block body (loop_state body st0 k))"
    using Suc.prems by (subst block_loop_unfold) simp
  finally show ?case by simp
qed

lemma loop_returns_at:
  assumes le: "\<And>j. st_block_start (loop_state body st0 j) \<le> be"
    and ok: "\<forall>j<k. fst (body (loop_state body st0 j)) = NV_NO_ERROR"
    and bad: "fst (body (loop_state body st0 k)) \<noteq> NV_NO_ERROR"
  shows "block_loop body be st0 = Some (body (loop_state body st0 k))"
proof -
  have "block_loop body be st0 = block_loop body be (loop_state body st0 k)"
    using le ok by (intro loop_state_passes) simp
  also have "\<dots> = Some (body (loop_state body st0 k))"
    using le [of k] bad by (subst block_loop_unfold) simp
  finally show ?thesis .
qed

lemma loop_never_returns:
  assumes le: "\<And>j. st_block_start (loop_state body st0 j) \<le> be"
    and ok: "\<forall>j. fst (body (loop_state body st0 j)) = NV_NO_ERROR"
  shows "block_loop body be st0 = None"
proof (rule block_loop_diverges [where I = "\<lambda>st. \<exists>k. st = loop_state body st0 k"])
  show "\<exists>k. st0 = loop_state body st0 k" by (rule exI [of _ 0]) simp
next
  fix s
  assume "\<exists>k. s = loop_state body st0 k"
  then obtain k where s: "s = loop_state body st0 k" ..
  have "next_block body s = loop_state body st0 (Suc k)" by (simp add: s)
  then have "\<exists>k. next_block body s = loop_state body st0 k" ..
  then show "st_block_start s \<le> be \<and> fst (body s) = NV_NO_ERROR \<and>
      (\<exists>k. next_block body s = loop_state body st0 k)"
    using le [of k] ok s by simp
qed

lemma write_loop_state:
  assumes al: "st_block_start st0 AND 0xf = 0" and off: "unat (st_block_offset st0) \<le> 16"
  shows "st_block_start (loop_state (write_block aes) st0 k) = st_block_start st0 + 16 * of_nat k \<and>
     st_block_start (loop_state (write_block aes) st0 k) AND 0xf = 0 \<and>
     unat (st_block_offset (loop_state (write_block aes) st0 k)) \<le> 16"
proof (induction k)
  case 0
  show ?case using al off by simp
next
  case (Suc k)
  let ?s = "loop_state (write_block aes) st0 k"
  from Suc have o: "unat (st_block_offset ?s) \<le> 16" by blast
  from Suc have b: "st_block_start ?s = st_block_start st0 + 16 * of_nat k"
    and a: "st_block_start ?s AND 0xf = 0" by blast+
  have n: "st_block_start (next_block (write_block aes) ?s) = st_block_start ?s + 16"
    using write_block_trace [OF o, of aes] by (simp add: next_block_def)
  have "st_block_start ?s + 16 = st_block_start st0 + 16 * of_nat (Suc k)"
    unfolding b by (simp add: algebra_simps)
  moreover have "(st_block_start ?s + 16) AND 0xf = 0" using a by (simp only: plus16_low4)
  moreover have "unat (st_block_offset (next_block (write_block aes) ?s)) \<le> 16"
    using write_block_offset_le [OF o, of aes] by (simp add: next_block_def)
  ultimately show ?case unfolding loop_state_Suc n by blast
qed

lemma read_loop_state:
  assumes al: "st_block_start st0 AND 0xf = 0" and off: "unat (st_block_offset st0) \<le> 16"
  shows "st_block_start (loop_state (read_block aes) st0 k) = st_block_start st0 + 16 * of_nat k \<and>
     st_block_start (loop_state (read_block aes) st0 k) AND 0xf = 0 \<and>
     unat (st_block_offset (loop_state (read_block aes) st0 k)) \<le> 16"
proof (induction k)
  case 0
  show ?case using al off by simp
next
  case (Suc k)
  let ?s = "loop_state (read_block aes) st0 k"
  from Suc have o: "unat (st_block_offset ?s) \<le> 16" by blast
  from Suc have b: "st_block_start ?s = st_block_start st0 + 16 * of_nat k"
    and a: "st_block_start ?s AND 0xf = 0" by blast+
  have n: "st_block_start (next_block (read_block aes) ?s) = st_block_start ?s + 16"
    using read_block_trace [OF o, of aes] by (simp add: next_block_def)
  have "st_block_start ?s + 16 = st_block_start st0 + 16 * of_nat (Suc k)"
    unfolding b by (simp add: algebra_simps)
  moreover have "(st_block_start ?s + 16) AND 0xf = 0" using a by (simp only: plus16_low4)
  moreover have "unat (st_block_offset (next_block (read_block aes) ?s)) \<le> 16"
    using read_block_offset_le [OF o, of aes] by (simp add: next_block_def)
  ultimately show ?case unfolding loop_state_Suc n by blast
qed

lemma block_end_top:
  assumes "a = 0 \<or> 0xfffffff0 < a"
  shows "adapter_block_end a 0 = 0xfffffff0"
  using assms
proof
  assume "a = 0"
  then show ?thesis by (simp add: adapter_block_end_def)
next
  assume a: "0xfffffff0 < a"
  then have lo: "4294967280 < unat a" by (simp add: word_less_nat_alt)
  have hi: "unat a < 4294967296" using unsigned_less [of a, where 'a = nat] by simp
  have "16 * (unat a div 16) = 16 * 268435455"
    unfolding div16_unique using lo hi by simp
  then have "unat (a AND 0xfffffff0) = unat (0xfffffff0 :: uint32_t)"
    by (simp add: unat_high28)
  then have h: "a AND 0xfffffff0 = 0xfffffff0" by (simp only: word_unat_eq_iff)
  have "a AND 0xf \<noteq> 0"
  proof
    assume "a AND 0xf = 0"
    then have "a AND 0xfffffff0 = a" by (simp add: high28_eq)
    then show False using a h by simp
  qed
  then show ?thesis using h by (simp add: block_end_same)
qed

subsection \<open>Calls of length zero whose last block is the last of the address space\<close>

lemma write_loop_state_le:
  assumes "st_block_start st0 AND 0xf = 0" "unat (st_block_offset st0) \<le> 16"
  shows "st_block_start (loop_state (write_block aes) st0 j) \<le> 0xfffffff0"
  using write_loop_state [OF assms, of aes j] by (intro aligned_le_last) blast

lemma read_loop_state_le:
  assumes "st_block_start st0 AND 0xf = 0" "unat (st_block_offset st0) \<le> 16"
  shows "st_block_start (loop_state (read_block aes) st0 j) \<le> 0xfffffff0"
  using read_loop_state [OF assms, of aes j] by (intro aligned_le_last) blast

lemma init_aligned: "st_block_start (adapter_init ks nv data a len) AND 0xf = 0"
  by (simp add: adapter_init_simps)

lemma zero_length_top_write:
  assumes top: "a = 0 \<or> 0xfffffff0 < a"
    and ok: "\<forall>j<k. fst (write_block aes (loop_state (write_block aes) (adapter_init ks nv B a 0) j)) = NV_NO_ERROR"
  shows "st_block_start (loop_state (write_block aes) (adapter_init ks nv B a 0) k) =
           (a AND 0xfffffff0) + 16 * of_nat k"
    and "fst (write_block aes (loop_state (write_block aes) (adapter_init ks nv B a 0) k)) \<noteq> NV_NO_ERROR \<Longrightarrow>
         encryptedNonVolatileWrite aes ks nv B a 0 =
           Some (fst (write_block aes (loop_state (write_block aes) (adapter_init ks nv B a 0) k)),
                 st_nv (snd (write_block aes (loop_state (write_block aes) (adapter_init ks nv B a 0) k))))"
proof -
  let ?st0 = "adapter_init ks nv B a 0"
  show "st_block_start (loop_state (write_block aes) ?st0 k) = (a AND 0xfffffff0) + 16 * of_nat k"
    using write_loop_state [OF init_aligned init_offset_le, of aes ks nv B a 0 k]
    by (simp add: adapter_init_simps)
  assume bad: "fst (write_block aes (loop_state (write_block aes) ?st0 k)) \<noteq> NV_NO_ERROR"
  have "block_loop (write_block aes) 0xfffffff0 ?st0 =
      Some (write_block aes (loop_state (write_block aes) ?st0 k))"
    using write_loop_state_le [OF init_aligned init_offset_le] ok bad by (rule loop_returns_at)
  then show "encryptedNonVolatileWrite aes ks nv B a 0 =
           Some (fst (write_block aes (loop_state (write_block aes) ?st0 k)),
                 st_nv (snd (write_block aes (loop_state (write_block aes) ?st0 k))))"
    by (simp add: encryptedNonVolatileWrite_def block_end_top [OF top] split_beta)
qed

lemma zero_length_top_write_none:
  assumes top: "a = 0 \<or> 0xfffffff0 < a"
    and ok: "\<forall>k. fst (write_block aes (loop_state (write_block aes) (adapter_init ks nv B a 0) k)) = NV_NO_ERROR"
  shows "encryptedNonVolatileWrite aes ks nv B a 0 = None"
proof -
  have "block_loop (write_block aes) 0xfffffff0 (adapter_init ks nv B a 0) = None"
    using write_loop_state_le [OF init_aligned init_offset_le] ok by (rule loop_never_returns)
  then show ?thesis by (simp add: encryptedNonVolatileWrite_def block_end_top [OF top])
qed

lemma zero_length_top_read:
  assumes top: "a = 0 \<or> 0xfffffff0 < a"
    and ok: "\<forall>j<k. fst (read_block aes (loop_state (read_block aes) (adapter_init ks nv buf a 0) j)) = NV_NO_ERROR"
  shows "st_block_start (loop_state (read_block aes) (adapter_init ks nv buf a 0) k) =
           (a AND 0xfffffff0) + 16 * of_nat k"
    and "fst (read_block aes (loop_state (read_block aes) (adapter_init ks nv buf a 0) k)) \<noteq> NV_NO_ERROR \<Longrightarrow>
         encryptedNonVolatileRead aes ks nv buf a 0 =
           Some (fst (read_block aes (loop_state (read_block aes) (adapter_init ks nv buf a 0) k)),
                 st_data (snd (read_block aes (loop_state (read_block aes) (adapter_init ks nv buf a 0) k))),
                 st_nv (snd (read_block aes (loop_state (read_block aes) (adapter_init ks nv buf a 0) k))))"
proof -
  let ?st0 = "adapter_init ks nv buf a 0"
  show "st_block_start (loop_state (read_block aes) ?st0 k) = (a AND 0xfffffff0) + 16 * of_nat k"
    using read_loop_state [OF init_aligned init_offset_le, of aes ks nv buf a 0 k]
    by (simp add: adapter_init_simps)
  assume bad: "fst (read_block aes (loop_state (read_block aes) ?st0 k)) \<noteq> NV_NO_ERROR"
  have "block_loop (read_block aes) 0xfffffff0 ?st0 =
      Some (read_block aes (loop_state (read_block aes) ?st0 k))"
    using read_loop_state_le [OF init_aligned init_offset_le] ok bad by (rule loop_returns_at)
  then show "encryptedNonVolatileRead aes ks nv buf a 0 =
           Some (fst (read_block aes (loop_state (read_block aes) ?st0 k)),
                 st_data (snd (read_block aes (loop_state (read_block aes) ?st0 k))),
                 st_nv (snd (read_block aes (loop_state (read_block aes) ?st0 k))))"
    by (simp add: encryptedNonVolatileRead_def block_end_top [OF top] split_beta)
qed

lemma zero_length_top_read_none:
  assumes top: "a = 0 \<or> 0xfffffff0 < a"
    and ok: "\<forall>k. fst (read_block aes (loop_state (read_block aes) (adapter_init ks nv buf a 0) k)) = NV_NO_ERROR"
  shows "encryptedNonVolatileRead aes ks nv buf a 0 = None"
proof -
  have "block_loop (read_block aes) 0xfffffff0 (adapter_init ks nv buf a 0) = None"
    using read_loop_state_le [OF init_aligned init_offset_le] ok by (rule loop_never_returns)
  then show ?thesis by (simp add: encryptedNonVolatileRead_def block_end_top [OF top])
qed

lemma zero_length_top_write_trace:
  assumes top: "a = 0 \<or> 0xfffffff0 < a"
    and w: "encryptedNonVolatileWrite aes ks nv B a 0 = Some (r, nv')"
  shows "r \<noteq> NV_NO_ERROR \<and>
         (\<exists>tr. nv_log nv' = nv_log nv @ tr \<and> write_order (a AND 0xfffffff0) tr \<and>
               stops_at_first_error (nv_status nv) (nv_log nv) tr r)"
proof -
  from w obtain st' where res: "block_loop (write_block aes) 0xfffffff0
        (adapter_init ks nv B a 0) = Some (r, st')" and nv': "nv' = st_nv st'"
    by (auto simp: encryptedNonVolatileWrite_def block_end_top [OF top])
  have r: "r \<noteq> NV_NO_ERROR"
    by (rule write_loop_never_ok [OF res init_aligned init_offset_le])
  from write_loop_trace [OF res init_offset_le]
  obtain tr where log: "nv_log nv' = nv_log nv @ tr"
    and tr: "write_trace (nv_status nv) 0xfffffff0 (nv_log nv) (a AND 0xfffffff0) tr r"
    by (auto simp: adapter_init_simps nv')
  show ?thesis
    using r log write_trace_answers [OF tr] write_trace_order [OF tr] by blast
qed

lemma zero_length_top_read_trace:
  assumes top: "a = 0 \<or> 0xfffffff0 < a"
    and w: "encryptedNonVolatileRead aes ks nv buf a 0 = Some (r, buf', nv')"
  shows "r \<noteq> NV_NO_ERROR \<and>
         (\<exists>tr. nv_log nv' = nv_log nv @ tr \<and> read_order (a AND 0xfffffff0) tr \<and>
               stops_at_first_error (nv_status nv) (nv_log nv) tr r)"
proof -
  from w obtain st' where res: "block_loop (read_block aes) 0xfffffff0
        (adapter_init ks nv buf a 0) = Some (r, st')" and nv': "nv' = st_nv st'"
    by (auto simp: encryptedNonVolatileRead_def block_end_top [OF top])
  have r: "r \<noteq> NV_NO_ERROR"
    by (rule read_loop_never_ok [OF res init_aligned init_offset_le])
  from read_loop_trace [OF res init_offset_le]
  obtain tr where log: "nv_log nv' = nv_log nv @ tr"
    and tr: "read_trace (nv_status nv) 0xfffffff0 (nv_log nv) (a AND 0xfffffff0) tr r"
    by (auto simp: adapter_init_simps nv')
  show ?thesis
    using r log read_trace_answers [OF tr] read_trace_order [OF tr] by blast
qed

lemma zero_length_top_never_failing:
  assumes top: "a = 0 \<or> 0xfffffff0 < a" and ok: "nv_status nv = (\<lambda>h x. NV_NO_ERROR)"
  shows "encryptedNonVolatileWrite aes ks nv B a 0 = None"
    and "encryptedNonVolatileRead aes ks nv buf a 0 = None"
proof -
  have "block_loop (write_block aes) 0xfffffff0 (adapter_init ks nv B a 0) = None"
    by (rule write_loop_diverges [OF init_aligned init_offset_le]) (simp add: adapter_init_simps ok)
  then show "encryptedNonVolatileWrite aes ks nv B a 0 = None"
    by (simp add: encryptedNonVolatileWrite_def block_end_top [OF top])
  have "block_loop (read_block aes) 0xfffffff0 (adapter_init ks nv buf a 0) = None"
    by (rule read_loop_diverges [OF init_aligned init_offset_le]) (simp add: adapter_init_simps ok)
  then show "encryptedNonVolatileRead aes ks nv buf a 0 = None"
    by (simp add: encryptedNonVolatileRead_def block_end_top [OF top])
qed

lemma write_second_block_status:
  assumes b: "st_block_start st = b" and off: "unat (st_block_offset st) \<le> 16"
    and stat: "nv_status (st_nv st) = (\<lambda>h x. if x = NvRead (b + 16) 16 then NV_ERROR 1 else NV_NO_ERROR)"
  shows "fst (write_block aes st) = NV_NO_ERROR"
    and "fst (write_block aes (next_block (write_block aes) st)) = NV_ERROR 1"
proof -
  let ?st1 = "next_block (write_block aes) st"
  note t = write_block_trace [OF off, of aes]
  have x: "nv_status (st_nv st) h (NvRead b 16) = NV_NO_ERROR" for h
    by (simp add: stat)
  from t x obtain y where y: "\<not> nv_is_read y"
    and r: "fst (write_block aes st) = nv_status (st_nv st) (nv_log (st_nv st) @ [NvRead b 16]) y"
    by (auto simp: b Let_def)
  have "y \<noteq> NvRead (b + 16) 16" using y by auto
  then show ok: "fst (write_block aes st) = NV_NO_ERROR" using r by (simp add: stat)
  note n = write_next_block [OF off ok]
  have o1: "unat (st_block_offset ?st1) \<le> 16" using n by simp
  have stat1: "nv_status (st_nv ?st1) = (\<lambda>h x. if x = NvRead (b + 16) 16 then NV_ERROR 1 else NV_NO_ERROR)"
    using n stat by simp
  have b1: "st_block_start ?st1 = b + 16" using n b by simp
  show "fst (write_block aes ?st1) = NV_ERROR 1"
    using write_block_trace [OF o1, of aes] by (auto simp: b1 stat1 Let_def)
qed

section \<open>The claims\<close>

subsection \<open>The XEX cipher\<close>

text \<open>
  C3. XEX construction. For every 16-byte input block, every tweak value \<open>n\<close>,
  sequence index \<open>seq\<close> and key pair, \<open>xexEncrypt\<close> leaves in \<open>out\<close> the value
  \<open>E(in \<oplus> \<Delta>) \<oplus> \<Delta>\<close> under the encryption key and \<open>xexDecrypt\<close> leaves
  \<open>D(in \<oplus> \<Delta>) \<oplus> \<Delta>\<close>, where \<open>\<Delta>\<close> is the encryption of \<open>n\<close> under the tweak key
  with \<open>doubleInGF\<close> applied \<open>seq\<close> times; no buffer other than \<open>out\<close> changes, so
  \<open>in\<close> is unchanged when it is not the same buffer as \<open>out\<close>. The pointers may alias
  in any way.
\<close>

theorem xex_construction:
  assumes "length (m inp) = 16"
  shows "xexEncrypt aes m out inp n seq tweak_key encrypt_key =
           m(out := xor16Bytes
             (aesEncrypt aes (xor16Bytes (m inp) (xex_delta aes (m n) seq (m tweak_key)))
                (aesExpandKey aes (m encrypt_key)))
             (xex_delta aes (m n) seq (m tweak_key)))
       \<and> xexDecrypt aes m out inp n seq tweak_key encrypt_key =
           m(out := xor16Bytes
             (aesDecrypt aes (xor16Bytes (m inp) (xex_delta aes (m n) seq (m tweak_key)))
                (aesExpandKey aes (m encrypt_key)))
             (xex_delta aes (m n) seq (m tweak_key)))
       \<and> (inp \<noteq> out \<longrightarrow>
            xexEncrypt aes m out inp n seq tweak_key encrypt_key inp = m inp \<and>
            xexDecrypt aes m out inp n seq tweak_key encrypt_key inp = m inp)"
  using assms by (simp add: xexEncrypt_def xexDecrypt_def xexEnDecrypt_eq)

theorem xex_construction_witness:
  "length (example_mem 0) = 16 \<and>
   xexEncrypt xor_cipher example_mem 4 0 1 3 2 3 0 = example_mem 0 \<and>
   xexEncrypt xor_cipher example_mem 4 0 1 3 2 3 4 =
     xor16Bytes
       (aesEncrypt xor_cipher (xor16Bytes (example_mem 0) (xex_delta xor_cipher (example_mem 1) 3 (example_mem 2)))
          (aesExpandKey xor_cipher (example_mem 3)))
       (xex_delta xor_cipher (example_mem 1) 3 (example_mem 2))"
proof -
  have l: "length (example_mem 0) = 16" by (simp add: example_mem_def example_block_def)
  show ?thesis
    using l xex_construction [where m = example_mem and inp = 0 and aes = xor_cipher
        and out = 4 and n = 1 and seq = 3 and tweak_key = 2 and encrypt_key = 3]
    by simp
qed

text \<open>
  C2. XEX round trip. For all keys, every 16-byte tweak value \<open>n\<close>, every sequence
  index and every 16-byte block \<open>P\<close>: decrypting what \<open>xexEncrypt\<close> wrote to its
  \<open>out\<close>, with the same tweak value, sequence index and keys, yields \<open>P\<close>, when the
  primitive's decryption inverts its encryption. The decryption may run in another
  memory \<open>m'\<close> with other pointers, as long as the buffers it is handed hold the
  ciphertext, the same \<open>n\<close> and the same keys. It holds for every sequence index, so
  for those from 1 on.
\<close>

theorem xex_round_trip:
  assumes aes: "aes_inverts aes"
    and P: "length (m inp) = 16" and n: "length (m n) = 16"
    and c: "m' inp' = xexEncrypt aes m out inp n seq tweak_key encrypt_key out"
    and same: "m' n' = m n" "m' tweak_key' = m tweak_key" "m' encrypt_key' = m encrypt_key"
  shows "xexDecrypt aes m' out' inp' n' seq tweak_key' encrypt_key' out' = m inp"
proof -
  have "xex_block aes True (xex_block aes False (m inp) (m n) seq (m tweak_key) (m encrypt_key))
          (m n) seq (m tweak_key) (m encrypt_key) = m inp"
    using aes P by (rule xex_block_inverse)
  moreover have "m' inp' = xex_block aes False (m inp) (m n) seq (m tweak_key) (m encrypt_key)"
    using c P by (simp add: xexEncrypt_def xexEnDecrypt_out)
  moreover have "length (m' inp') = 16"
    unfolding calculation(2) using aes P by (rule xex_block_length)
  ultimately show ?thesis
    using same by (simp add: xexDecrypt_def xexEnDecrypt_out)
qed

theorem xex_round_trip_witness:
  "aes_inverts xor_cipher \<and> length (example_mem 0) = 16 \<and> length (example_mem 1) = 16 \<and>
   xexDecrypt xor_cipher (xexEncrypt xor_cipher example_mem 4 0 1 1 2 3) 5 4 1 1 2 3 5 = example_mem 0"
proof -
  have l: "length (example_mem 0) = 16" "length (example_mem 1) = 16"
    by (simp_all add: example_mem_def example_block_def)
  let ?m' = "xexEncrypt xor_cipher example_mem 4 0 1 1 2 3"
  have s: "?m' 1 = example_mem 1" "?m' 2 = example_mem 2" "?m' 3 = example_mem 3"
    by (simp_all add: xexEncrypt_def xexEnDecrypt_other)
  from xex_round_trip [where aes = xor_cipher and m = example_mem and inp = 0 and n = 1
      and m' = ?m' and inp' = 4 and out = 4 and seq = 1 and tweak_key = 2 and encrypt_key = 3
      and n' = 1 and tweak_key' = 2 and encrypt_key' = 3 and out' = 5,
      OF xor_cipher_inverts l refl s]
  show ?thesis using l xor_cipher_inverts by simp
qed

subsection \<open>The GF doubler\<close>

text \<open>
  C4. GF doubler correctness. For every 16-byte buffer read as a 128-bit little-endian
  number, \<open>doubleInGF\<close> replaces it with its product by \<open>x\<close> in GF(2^128) modulo
  \<open>x^128 + x^7 + x^2 + x + 1\<close>; byte by byte, that is the shift left by one bit
  across the 16 bytes, each byte taking bit 7 of the byte before it, with byte 0 XORed
  with 0x87 exactly when bit 7 of byte 15 was set; and the all-zero buffer stays all
  zero.
\<close>

theorem doubleInGF_correct:
  assumes "length op1 = 16"
  shows "bytes_to_nat (doubleInGF op1) = gf_double (bytes_to_nat op1) \<and>
     length (doubleInGF op1) = 16 \<and>
     (\<forall>j<16. doubleInGF op1 ! j =
        (push_bit 1 (op1 ! j) OR (if j = 0 then 0 else drop_bit 7 (op1 ! (j - 1))))
        XOR (if j = 0 \<and> bit (op1 ! 15) 7 then 0x87 else 0)) \<and>
     doubleInGF (replicate 16 0) = replicate 16 0"
proof -
  have c: "carry_of b = drop_bit 7 b" for b
    unfolding carry_of_def by (rule carry_drop_bit)
  have r: "(0x87 :: uint8_t) AND - drop_bit 7 b = (if bit b 7 then 0x87 else 0)" for b
    using reduce_mask [of b] unfolding c .
  have "doubleInGF op1 ! j =
        (push_bit 1 (op1 ! j) OR (if j = 0 then 0 else drop_bit 7 (op1 ! (j - 1))))
        XOR (if j = 0 \<and> bit (op1 ! 15) 7 then 0x87 else 0)" if "j < 16" for j
    using that assms
    by (simp add: doubleInGF_nth c r)
  then show ?thesis
    using assms doubleInGF_value [OF assms] doubleInGF_zero by simp
qed

theorem doubleInGF_correct_witness:
  "length example_block = 16 \<and>
   bytes_to_nat (doubleInGF example_block) = gf_double (bytes_to_nat example_block) \<and>
   length (doubleInGF example_block) = 16"
proof -
  have l: "length example_block = 16" by (simp add: example_block_def)
  show ?thesis using l doubleInGF_correct [OF l] by simp
qed

text \<open>
  C8. GF doubling known answer. The claim as stated fails: sixteen doublings of
  \<open>01 00 ... 00\<close> move the set bit to byte 2 and never reach the reduction.
\<close>

theorem doubleInGF_sixteen_times:
  "(doubleInGF ^^ 16) [1, 0, 0, 0, 0, 0, 0, 0, 0, 0, 0, 0, 0, 0, 0, 0] =
      [0, 0, 1, 0, 0, 0, 0, 0, 0, 0, 0, 0, 0, 0, 0, 0] \<and>
   doubleInGF ((doubleInGF ^^ 15) [1, 0, 0, 0, 0, 0, 0, 0, 0, 0, 0, 0, 0, 0, 0, 0]) \<noteq>
      [0x87, 0, 0, 0, 0, 0, 0, 0, 0, 0, 0, 0, 0, 0, 0, 0]"
proof -
  have "doubleInGF ((doubleInGF ^^ 15) [1, 0, 0, 0, 0, 0, 0, 0, 0, 0, 0, 0, 0, 0, 0, 0]) =
        (doubleInGF ^^ 16) [1, 0, 0, 0, 0, 0, 0, 0, 0, 0, 0, 0, 0, 0, 0, 0]"
    by (simp add: numeral_eq_Suc)
  then show ?thesis by (simp only: double16) simp
qed

text \<open>
  C8, amended. Starting from \<open>01 00 ... 00\<close>, applying \<open>doubleInGF\<close> 127 times and
  then a 128th time yields byte 0 equal to 0x87 and the other fifteen bytes zero: the
  128th doubling shifts the bit out of byte 15 and takes the reduction path.
\<close>

theorem doubleInGF_128_times:
  "doubleInGF ((doubleInGF ^^ 127) [1, 0, 0, 0, 0, 0, 0, 0, 0, 0, 0, 0, 0, 0, 0, 0]) =
      [0x87, 0, 0, 0, 0, 0, 0, 0, 0, 0, 0, 0, 0, 0, 0, 0]"
proof -
  have "doubleInGF ((doubleInGF ^^ 127) [1, 0, 0, 0, 0, 0, 0, 0, 0, 0, 0, 0, 0, 0, 0, 0]) =
        (doubleInGF ^^ Suc 127) [1, 0, 0, 0, 0, 0, 0, 0, 0, 0, 0, 0, 0, 0, 0, 0]"
    by (simp only: funpow.simps o_apply)
  also have "Suc 127 = 128" by simp
  finally show ?thesis by (simp only: double128)
qed

subsection \<open>The key state\<close>

text \<open>
  C9. Key clear idempotence. The two key arrays hold 16 bytes each. Calling
  \<open>clearEncryptionKey\<close> twice leaves the state that one call leaves, in which both keys
  are sixteen zero bytes; \<open>isEncryptionKeyNonZero\<close> is zero after a clear; and after
  \<open>setEncryptionKey\<close> with the 32 bytes of which only byte 16 is set, to \<open>0x01\<close>,
  \<open>isEncryptionKeyNonZero\<close> is not zero.
\<close>

theorem key_clear_idempotent:
  assumes "length (nv_storage_encrypt_key ks) = 16" "length (nv_storage_tweak_key ks) = 16"
  shows "clearEncryptionKey (clearEncryptionKey ks) = clearEncryptionKey ks \<and>
     clearEncryptionKey ks =
       \<lparr>nv_storage_encrypt_key = replicate 16 0, nv_storage_tweak_key = replicate 16 0\<rparr> \<and>
     isEncryptionKeyNonZero (clearEncryptionKey ks) = 0 \<and>
     isEncryptionKeyNonZero (setEncryptionKey ks (replicate 16 0 @ [1] @ replicate 15 0)) \<noteq> 0"
proof -
  note c = clearEncryptionKey_eq [OF assms]
  have cc: "clearEncryptionKey (clearEncryptionKey ks) = clearEncryptionKey ks"
    unfolding c by (simp add: clearEncryptionKey_eq)
  have z: "isEncryptionKeyNonZero (clearEncryptionKey ks) = 0"
    unfolding c isEncryptionKeyNonZero_iff by simp
  have "nv_storage_tweak_key (setEncryptionKey ks (replicate 16 0 @ [1] @ replicate 15 0)) ! 0 = 1"
    using setEncryptionKey_tweak [OF assms(2), of 0] by (simp add: nth_append)
  then have "isEncryptionKeyNonZero (setEncryptionKey ks (replicate 16 0 @ [1] @ replicate 15 0)) \<noteq> 0"
    unfolding isEncryptionKeyNonZero_iff by (intro notI) force
  with c cc z show ?thesis by simp
qed

theorem key_clear_idempotent_witness:
  "length (nv_storage_encrypt_key example_keys) = 16 \<and>
   length (nv_storage_tweak_key example_keys) = 16 \<and>
   clearEncryptionKey (clearEncryptionKey example_keys) = clearEncryptionKey example_keys \<and>
   isEncryptionKeyNonZero (clearEncryptionKey example_keys) = 0 \<and>
   isEncryptionKeyNonZero (setEncryptionKey example_keys (replicate 16 0 @ [1] @ replicate 15 0)) \<noteq> 0"
proof -
  have l: "length (nv_storage_encrypt_key example_keys) = 16"
    "length (nv_storage_tweak_key example_keys) = 16"
    by (simp_all add: example_keys_def)
  show ?thesis using l key_clear_idempotent [OF l] by blast
qed

subsection \<open>The encrypted storage adapter\<close>

text \<open>
  C1. Read-your-write. Take a length of at least 1 and a range that ends at or below
  \<open>0xFFFFFFF0\<close>, a store that answers every access to the blocks of the range with
  \<open>NV_NO_ERROR\<close>, and a cipher whose decryption inverts its encryption. Then
  \<open>encryptedNonVolatileWrite\<close> of \<open>B\<close> returns \<open>NV_NO_ERROR\<close>, and
  \<open>encryptedNonVolatileRead\<close> of the same range on the store it leaves returns
  \<open>NV_NO_ERROR\<close> with the buffer equal to \<open>B\<close>.

  The bound on the end of the range is needed. With no overflow in \<open>a + len - 1\<close> but
  the last byte of the range in the block at \<open>0xFFFFFFF0\<close>, \<open>block_end\<close> is
  \<open>0xFFFFFFF0\<close>, \<open>block_start += 16\<close> wraps to 0 and \<open>block_start <= block_end\<close>
  holds for ever: on a store that never fails the write of one byte at
  \<open>0xFFFFFFF0\<close> does not return, which the last theorem of the three shows.
\<close>

theorem read_your_write:
  assumes aes: "aes_inverts aes"
    and len: "len \<noteq> 0"
    and bound: "unat a + unat len \<le> 0xFFFFFFF0"
    and B: "length B = unat len" and buf: "length buf = unat len"
    and ok: "\<forall>h b d. a AND 0xfffffff0 \<le> b \<and> b \<le> adapter_block_end a len \<longrightarrow>
               nv_status nv h (NvRead b 16) = NV_NO_ERROR \<and>
               nv_status nv h (NvWrite b d) = NV_NO_ERROR"
  shows "\<exists>nv' nv''.
     encryptedNonVolatileWrite aes ks nv B a len = Some (NV_NO_ERROR, nv') \<and>
     encryptedNonVolatileRead aes ks nv' buf a len = Some (NV_NO_ERROR, B, nv'')"
proof -
  let ?be = "adapter_block_end a len"
  let ?st0 = "adapter_init ks nv B a len"
  have b32: "unat a + unat len \<le> 2 ^ 32" using bound by simp
  note rng = adapter_range [OF len b32]
  have top: "unat ?be + 16 < 2 ^ 32" using rng(2) bound by simp
  have l: "0 < unat len" using len by (simp add: unat_gt_0)
  have cur: "unat (a AND 0xfffffff0) + unat a mod 16 = unat a"
    by (simp add: unat_high28)
  have inv: "adapter_mem_ok ks (st_mem (adapter_init ks s d a len))" for s d
    by (rule adapter_init_ok)
  have ok': "\<forall>h b' d. unat (a AND 0xfffffff0) \<le> unat b' \<and> unat b' \<le> unat ?be \<longrightarrow>
        nv_status nv h (NvRead b' 16) = NV_NO_ERROR \<and> nv_status nv h (NvWrite b' d) = NV_NO_ERROR"
    using ok by (simp add: word_le_nat_alt)
  have "\<exists>st'. block_loop (write_block aes) ?be ?st0 = Some (NV_NO_ERROR, st')"
    using rng l ok'
    by (intro write_loop_returns [OF aes _ top, where ks = ks])
       (simp_all add: adapter_init_simps inv cur)
  then obtain st' where w: "block_loop (write_block aes) ?be ?st0 = Some (NV_NO_ERROR, st')"
    by blast
  have "nv_status (st_nv st') = nv_status (st_nv ?st0) \<and>
       (\<forall>x. plain_byte aes ks (nv_mem (st_nv st')) x =
          (if unat (st_block_start ?st0) + unat (st_block_offset ?st0) \<le> unat x \<and>
              unat x < unat (st_block_start ?st0) + unat (st_block_offset ?st0) + unat (st_length ?st0)
           then st_data ?st0 ! (st_pos ?st0 + (unat x - (unat (st_block_start ?st0) + unat (st_block_offset ?st0))))
           else plain_byte aes ks (nv_mem (st_nv ?st0)) x))"
    using rng l
    by (intro write_loop_sound [OF aes _ top w])
       (simp_all add: adapter_init_simps inv cur)
  then have s': "nv_status (st_nv st') = nv_status nv"
    and P: "\<And>x. plain_byte aes ks (nv_mem (st_nv st')) x =
          (if unat a \<le> unat x \<and> unat x < unat a + unat len then B ! (unat x - unat a)
           else plain_byte aes ks (nv_mem nv) x)"
    by (simp_all add: adapter_init_simps cur)
  let ?nv' = "st_nv st'"
  let ?st1 = "adapter_init ks ?nv' buf a len"
  have "\<exists>st''. block_loop (read_block aes) ?be ?st1 = Some (NV_NO_ERROR, st'') \<and>
       nv_mem (st_nv st'') = nv_mem (st_nv ?st1) \<and>
       length (st_data st'') = length (st_data ?st1) \<and>
       (\<forall>j<length (st_data ?st1). st_data st'' ! j =
          (if st_pos ?st1 \<le> j \<and> j < st_pos ?st1 + unat (st_length ?st1)
           then plain_byte aes ks (nv_mem (st_nv ?st1))
                  (st_block_start ?st1 + of_nat (unat (st_block_offset ?st1) + (j - st_pos ?st1)))
           else st_data ?st1 ! j))"
    using rng l ok' s'
    by (intro read_loop_ok [OF _ top, where ks = ks])
       (simp_all add: adapter_init_simps inv cur)
  then obtain st'' where r: "block_loop (read_block aes) ?be ?st1 = Some (NV_NO_ERROR, st'')"
    and ld: "length (st_data st'') = length buf"
    and D: "\<And>j. j < length buf \<Longrightarrow> st_data st'' ! j =
          plain_byte aes ks (nv_mem ?nv') (a + of_nat j)"
    using buf by (auto simp: adapter_init_simps block_of_address_split)
  have "st_data st'' = B"
  proof (rule nth_equalityI)
    show "length (st_data st'') = length B" using ld buf B by simp
  next
    fix j assume "j < length (st_data st'')"
    then have j: "j < unat len" using ld buf by simp
    then have "unat a + j < 2 ^ 32" using b32 by simp
    moreover have "unat (of_nat j :: uint32_t) = j"
    proof -
      have "unat len < 256" using unsigned_less [of len, where 'a = nat] by simp
      then have "j < 4294967296" using j by simp
      then show ?thesis by (simp add: unat_of_nat)
    qed
    ultimately have u: "unat (a + of_nat j) = unat a + j"
      using unat_add_lem [of a "of_nat j"] by simp
    show "st_data st'' ! j = B ! j"
      using D [of j] j buf P [of "a + of_nat j"] u by simp
  qed
  then show ?thesis
    using w r by (simp add: encryptedNonVolatileWrite_def encryptedNonVolatileRead_def)
qed

theorem read_your_write_witness:
  "aes_inverts xor_cipher \<and> (3::uint8_t) \<noteq> 0 \<and> unat (0x1e::uint32_t) + unat (3::uint8_t) \<le> 0xFFFFFFF0 \<and>
   nv_status ok_store = (\<lambda>h x. NV_NO_ERROR) \<and>
   (\<exists>nv' nv''.
      encryptedNonVolatileWrite xor_cipher example_keys ok_store [0x11, 0x22, 0x33] 0x1e 3
        = Some (NV_NO_ERROR, nv') \<and>
      encryptedNonVolatileRead xor_cipher example_keys nv' [0, 0, 0] 0x1e 3
        = Some (NV_NO_ERROR, [0x11, 0x22, 0x33], nv''))"
  using read_your_write [where aes = xor_cipher and ks = example_keys and nv = ok_store
      and B = "[0x11, 0x22, 0x33]" and buf = "[0, 0, 0]" and a = "0x1e" and len = 3,
      OF xor_cipher_inverts]
  by (simp add: ok_store_def xor_cipher_inverts)

theorem write_at_last_block_never_returns:
  "encryptedNonVolatileWrite xor_cipher example_keys ok_store [0x11] 0xfffffff0 1 = None"
proof -
  have e: "adapter_block_end 0xfffffff0 1 = 0xfffffff0"
    by (simp add: adapter_block_end_def)
  have "block_loop (write_block xor_cipher) 0xfffffff0
          (adapter_init example_keys ok_store [0x11] 0xfffffff0 1) = None"
    by (rule write_loop_diverges) (simp_all add: adapter_init_simps ok_store_def)
  then show ?thesis by (simp add: encryptedNonVolatileWrite_def e)
qed

text \<open>
  C7. Write locality. After a call of \<open>encryptedNonVolatileWrite\<close> with a length of
  at least 1 that returns \<open>NV_NO_ERROR\<close>, the decrypted content of every byte whose
  address is outside \<open>[a, a + len)\<close> is what it was before the call; this includes the
  bytes of the first and of the last block of the range that the range does not cover.
\<close>

theorem write_locality:
  assumes aes: "aes_inverts aes"
    and len: "len \<noteq> 0"
    and w: "encryptedNonVolatileWrite aes ks nv B a len = Some (NV_NO_ERROR, nv')"
    and x: "\<not> (unat a \<le> unat x \<and> unat x < unat a + unat len)"
  shows "plain_byte aes ks (nv_mem nv') x = plain_byte aes ks (nv_mem nv) x"
proof -
  let ?be = "adapter_block_end a len"
  let ?st0 = "adapter_init ks nv B a len"
  from w obtain st' where res: "block_loop (write_block aes) ?be ?st0 = Some (NV_NO_ERROR, st')"
    and nv': "nv' = st_nv st'"
    by (auto simp: encryptedNonVolatileWrite_def)
  have l: "0 < unat len" using len by (simp add: unat_gt_0)
  have top_le: "unat ?be + 16 \<le> 2 ^ 32" by (rule aligned_le_top) simp
  consider (wrap) "2 ^ 32 < unat a + unat len"
    | (last) "unat a + unat len \<le> 2 ^ 32" "unat ?be + 16 = 2 ^ 32"
    | (inside) "unat a + unat len \<le> 2 ^ 32" "unat ?be + 16 < 2 ^ 32"
    using top_le by linarith
  then show ?thesis
  proof cases
    case wrap
    have "\<not> st_block_start ?st0 \<le> ?be"
      using block_end_wrapped [OF len wrap] by (simp add: adapter_init_simps)
    then have "block_loop (write_block aes) ?be ?st0 = Some (NV_NO_ERROR, ?st0)"
      by (simp add: block_loop_unfold)
    then have "st' = ?st0" using res by simp
    then show ?thesis by (simp add: nv' adapter_init_simps)
  next
    case last
    then have "unat ?be = unat (0xfffffff0 :: uint32_t)" by simp
    then have be: "?be = 0xfffffff0" by (simp only: word_unat_eq_iff)
    have "NV_NO_ERROR \<noteq> NV_NO_ERROR"
    proof (rule block_loop_never_ok [where J = "\<lambda>st. st_block_start st AND 0xf = 0 \<and>
          unat (st_block_offset st) \<le> 16", OF _ res])
      show "st_block_start ?st0 AND 0xf = 0 \<and> unat (st_block_offset ?st0) \<le> 16"
        by (simp add: adapter_init_simps)
    next
      fix s :: adapter_state
      assume j: "st_block_start s AND 0xf = 0 \<and> unat (st_block_offset s) \<le> 16"
      then have o: "unat (st_block_offset s) \<le> 16" by simp
      show "st_block_start s \<le> ?be \<and>
          (st_block_start (next_block (write_block aes) s) AND 0xf = 0 \<and>
           unat (st_block_offset (next_block (write_block aes) s)) \<le> 16)"
        using j aligned_le_last [of "st_block_start s"] write_block_trace [OF o, of aes]
          write_block_offset_le [OF o, of aes]
        by (simp add: be next_block_def plus16_low4)
    qed
    then show ?thesis by simp
  next
    case inside
    note rng = adapter_range [OF len inside(1)]
    have cur: "unat (a AND 0xfffffff0) + unat a mod 16 = unat a"
      by (simp add: unat_high28)
    have "nv_status (st_nv st') = nv_status (st_nv ?st0) \<and>
       (\<forall>x. plain_byte aes ks (nv_mem (st_nv st')) x =
          (if unat (st_block_start ?st0) + unat (st_block_offset ?st0) \<le> unat x \<and>
              unat x < unat (st_block_start ?st0) + unat (st_block_offset ?st0) + unat (st_length ?st0)
           then st_data ?st0 ! (st_pos ?st0 + (unat x - (unat (st_block_start ?st0) + unat (st_block_offset ?st0))))
           else plain_byte aes ks (nv_mem (st_nv ?st0)) x))"
      using rng l
      by (intro write_loop_sound [OF aes _ inside(2) res])
         (simp_all add: adapter_init_simps adapter_init_ok cur)
    then have "plain_byte aes ks (nv_mem (st_nv st')) x =
          (if unat a \<le> unat x \<and> unat x < unat a + unat len then B ! (unat x - unat a)
           else plain_byte aes ks (nv_mem nv) x)"
      by (simp add: adapter_init_simps cur)
    then show ?thesis using x unfolding nv' by (simp only: if_False)
  qed
qed

theorem write_locality_witness:
  "aes_inverts xor_cipher \<and> (3::uint8_t) \<noteq> 0 \<and>
   (\<exists>nv'. encryptedNonVolatileWrite xor_cipher example_keys ok_store [0x11, 0x22, 0x33] 0x1e 3
            = Some (NV_NO_ERROR, nv') \<and>
      \<not> (unat (0x1e::uint32_t) \<le> unat (0x1d::uint32_t) \<and>
         unat (0x1d::uint32_t) < unat (0x1e::uint32_t) + unat (3::uint8_t)) \<and>
      plain_byte xor_cipher example_keys (nv_mem nv') 0x1d =
      plain_byte xor_cipher example_keys (nv_mem ok_store) 0x1d)"
proof -
  have "\<exists>nv'. encryptedNonVolatileWrite xor_cipher example_keys ok_store [0x11, 0x22, 0x33] 0x1e 3
            = Some (NV_NO_ERROR, nv')"
    by (rule encrypted_write_returns [OF xor_cipher_inverts]) (simp_all add: ok_store_def)
  then obtain nv' where w: "encryptedNonVolatileWrite xor_cipher example_keys ok_store
       [0x11, 0x22, 0x33] 0x1e 3 = Some (NV_NO_ERROR, nv')" by blast
  have n: "(3::uint8_t) \<noteq> 0" by simp
  have x: "\<not> (unat (0x1e::uint32_t) \<le> unat (0x1d::uint32_t) \<and>
         unat (0x1d::uint32_t) < unat (0x1e::uint32_t) + unat (3::uint8_t))" by simp
  from write_locality [OF xor_cipher_inverts n w x] w x n xor_cipher_inverts
  show ?thesis by blast
qed




text \<open>
  C10. Calls of length zero. \<open>block_end\<close> is \<open>(address - 1) & 0xfffffff0\<close>.
  (i) At a non-zero multiple of 16 both calls return \<open>NV_NO_ERROR\<close> and leave the
  store, with its list of accesses, and the buffer as they were.
  (ii) At an address below \<open>0xFFFFFFF0\<close> that is not a multiple of 16, a write reads
  the block that holds the address and, if the read is answered \<open>NV_NO_ERROR\<close>, writes
  that block, and makes no other access; it returns the status of the last access, and
  the decrypted content of the store is unchanged when decryption inverts encryption.
  A read makes the one 16-byte read of that block, returns its status and leaves the
  buffer and the content unchanged.
  (iii) At address 0 and at every address above \<open>0xFFFFFFF0\<close>, \<open>block_end\<close> is
  \<open>0xFFFFFFF0\<close>. The call goes through the blocks \<open>b\<close>, \<open>b + 16\<close>, ... (modulo
  \<open>2^32\<close>) from the block \<open>b\<close> that holds the address: if the iterations before
  iteration \<open>k\<close> have returned \<open>NV_NO_ERROR\<close>, iteration \<open>k\<close> is at the block
  \<open>b + 16 k\<close>, and if it returns another status the call returns with that status
  and the state that iteration leaves; if every iteration returns \<open>NV_NO_ERROR\<close>
  the call does not return. So the call never returns \<open>NV_NO_ERROR\<close>, the accesses of
  a call that returns are in the order of C6 and stop at the first failure, and on a
  store that never fails the call does not return.

  In (ii) the bound on the address is needed: at \<open>0xFFFFFFF1\<close> the call is one of
  (iii), and on a store that never fails the write does not return, which the last
  theorem of the three shows.
\<close>

theorem zero_length_calls:
  "adapter_block_end a 0 = (a - 1) AND 0xfffffff0 \<and>
   (a \<noteq> 0 \<and> a AND 0xf = 0 \<longrightarrow>
      encryptedNonVolatileWrite aes ks nv B a 0 = Some (NV_NO_ERROR, nv) \<and>
      encryptedNonVolatileRead aes ks nv buf a 0 = Some (NV_NO_ERROR, buf, nv)) \<and>
   (a AND 0xf \<noteq> 0 \<and> a < 0xfffffff0 \<longrightarrow>
      (\<exists>r nv'. encryptedNonVolatileWrite aes ks nv B a 0 = Some (r, nv') \<and>
         (if nv_status nv (nv_log nv) (NvRead (a AND 0xfffffff0) 16) \<noteq> NV_NO_ERROR
          then r = nv_status nv (nv_log nv) (NvRead (a AND 0xfffffff0) 16) \<and>
               nv_log nv' = nv_log nv @ [NvRead (a AND 0xfffffff0) 16]
          else \<exists>d. nv_log nv' =
                     nv_log nv @ [NvRead (a AND 0xfffffff0) 16, NvWrite (a AND 0xfffffff0) d] \<and>
                   r = nv_status nv (nv_log nv @ [NvRead (a AND 0xfffffff0) 16])
                         (NvWrite (a AND 0xfffffff0) d)) \<and>
         (aes_inverts aes \<longrightarrow>
            (\<forall>x. plain_byte aes ks (nv_mem nv') x = plain_byte aes ks (nv_mem nv) x))) \<and>
      (\<exists>nv'. encryptedNonVolatileRead aes ks nv buf a 0 =
            Some (nv_status nv (nv_log nv) (NvRead (a AND 0xfffffff0) 16), buf, nv') \<and>
         nv_log nv' = nv_log nv @ [NvRead (a AND 0xfffffff0) 16] \<and> nv_mem nv' = nv_mem nv)) \<and>
   (a = 0 \<or> 0xfffffff0 < a \<longrightarrow>
      adapter_block_end a 0 = 0xfffffff0 \<and>
      (let body = write_block aes; s = loop_state body (adapter_init ks nv B a 0) in
         (\<forall>k. (\<forall>j<k. fst (body (s j)) = NV_NO_ERROR) \<longrightarrow>
            st_block_start (s k) = (a AND 0xfffffff0) + 16 * of_nat k \<and>
            (fst (body (s k)) \<noteq> NV_NO_ERROR \<longrightarrow>
               encryptedNonVolatileWrite aes ks nv B a 0 =
                 Some (fst (body (s k)), st_nv (snd (body (s k)))))) \<and>
         ((\<forall>k. fst (body (s k)) = NV_NO_ERROR) \<longrightarrow>
            encryptedNonVolatileWrite aes ks nv B a 0 = None)) \<and>
      (let body = read_block aes; s = loop_state body (adapter_init ks nv buf a 0) in
         (\<forall>k. (\<forall>j<k. fst (body (s j)) = NV_NO_ERROR) \<longrightarrow>
            st_block_start (s k) = (a AND 0xfffffff0) + 16 * of_nat k \<and>
            (fst (body (s k)) \<noteq> NV_NO_ERROR \<longrightarrow>
               encryptedNonVolatileRead aes ks nv buf a 0 =
                 Some (fst (body (s k)), st_data (snd (body (s k))), st_nv (snd (body (s k)))))) \<and>
         ((\<forall>k. fst (body (s k)) = NV_NO_ERROR) \<longrightarrow>
            encryptedNonVolatileRead aes ks nv buf a 0 = None)) \<and>
      (\<forall>r nv'. encryptedNonVolatileWrite aes ks nv B a 0 = Some (r, nv') \<longrightarrow>
         r \<noteq> NV_NO_ERROR \<and>
         (\<exists>tr. nv_log nv' = nv_log nv @ tr \<and> write_order (a AND 0xfffffff0) tr \<and>
               stops_at_first_error (nv_status nv) (nv_log nv) tr r)) \<and>
      (\<forall>r buf' nv'. encryptedNonVolatileRead aes ks nv buf a 0 = Some (r, buf', nv') \<longrightarrow>
         r \<noteq> NV_NO_ERROR \<and>
         (\<exists>tr. nv_log nv' = nv_log nv @ tr \<and> read_order (a AND 0xfffffff0) tr \<and>
               stops_at_first_error (nv_status nv) (nv_log nv) tr r)) \<and>
      (nv_status nv = (\<lambda>h x. NV_NO_ERROR) \<longrightarrow>
         encryptedNonVolatileWrite aes ks nv B a 0 = None \<and>
         encryptedNonVolatileRead aes ks nv buf a 0 = None))"
proof (intro conjI)
  show "adapter_block_end a 0 = (a - 1) AND 0xfffffff0" by (rule block_end_zero_length)
next
  show "a \<noteq> 0 \<and> a AND 0xf = 0 \<longrightarrow>
      encryptedNonVolatileWrite aes ks nv B a 0 = Some (NV_NO_ERROR, nv) \<and>
      encryptedNonVolatileRead aes ks nv buf a 0 = Some (NV_NO_ERROR, buf, nv)"
    using zero_length_aligned [of a aes ks nv] by blast
next
  show "a AND 0xf \<noteq> 0 \<and> a < 0xfffffff0 \<longrightarrow>
      (\<exists>r nv'. encryptedNonVolatileWrite aes ks nv B a 0 = Some (r, nv') \<and>
         (if nv_status nv (nv_log nv) (NvRead (a AND 0xfffffff0) 16) \<noteq> NV_NO_ERROR
          then r = nv_status nv (nv_log nv) (NvRead (a AND 0xfffffff0) 16) \<and>
               nv_log nv' = nv_log nv @ [NvRead (a AND 0xfffffff0) 16]
          else \<exists>d. nv_log nv' =
                     nv_log nv @ [NvRead (a AND 0xfffffff0) 16, NvWrite (a AND 0xfffffff0) d] \<and>
                   r = nv_status nv (nv_log nv @ [NvRead (a AND 0xfffffff0) 16])
                         (NvWrite (a AND 0xfffffff0) d)) \<and>
         (aes_inverts aes \<longrightarrow>
            (\<forall>x. plain_byte aes ks (nv_mem nv') x = plain_byte aes ks (nv_mem nv) x))) \<and>
      (\<exists>nv'. encryptedNonVolatileRead aes ks nv buf a 0 =
            Some (nv_status nv (nv_log nv) (NvRead (a AND 0xfffffff0) 16), buf, nv') \<and>
         nv_log nv' = nv_log nv @ [NvRead (a AND 0xfffffff0) 16] \<and> nv_mem nv' = nv_mem nv)"
  proof (intro impI conjI)
    assume h: "a AND 0xf \<noteq> 0 \<and> a < 0xfffffff0"
    then have m: "a AND 0xf \<noteq> 0" and a: "a < 0xfffffff0" by simp_all
    from zero_length_inside_write [OF m a]
    show "\<exists>r nv'. encryptedNonVolatileWrite aes ks nv B a 0 = Some (r, nv') \<and>
         (if nv_status nv (nv_log nv) (NvRead (a AND 0xfffffff0) 16) \<noteq> NV_NO_ERROR
          then r = nv_status nv (nv_log nv) (NvRead (a AND 0xfffffff0) 16) \<and>
               nv_log nv' = nv_log nv @ [NvRead (a AND 0xfffffff0) 16]
          else \<exists>d. nv_log nv' =
                     nv_log nv @ [NvRead (a AND 0xfffffff0) 16, NvWrite (a AND 0xfffffff0) d] \<and>
                   r = nv_status nv (nv_log nv @ [NvRead (a AND 0xfffffff0) 16])
                         (NvWrite (a AND 0xfffffff0) d)) \<and>
         (aes_inverts aes \<longrightarrow>
            (\<forall>x. plain_byte aes ks (nv_mem nv') x = plain_byte aes ks (nv_mem nv) x))" .
    from zero_length_inside_read [OF m a]
    show "\<exists>nv'. encryptedNonVolatileRead aes ks nv buf a 0 =
            Some (nv_status nv (nv_log nv) (NvRead (a AND 0xfffffff0) 16), buf, nv') \<and>
         nv_log nv' = nv_log nv @ [NvRead (a AND 0xfffffff0) 16] \<and> nv_mem nv' = nv_mem nv" .
  qed
next
  show "a = 0 \<or> 0xfffffff0 < a \<longrightarrow>
      adapter_block_end a 0 = 0xfffffff0 \<and>
      (let body = write_block aes; s = loop_state body (adapter_init ks nv B a 0) in
         (\<forall>k. (\<forall>j<k. fst (body (s j)) = NV_NO_ERROR) \<longrightarrow>
            st_block_start (s k) = (a AND 0xfffffff0) + 16 * of_nat k \<and>
            (fst (body (s k)) \<noteq> NV_NO_ERROR \<longrightarrow>
               encryptedNonVolatileWrite aes ks nv B a 0 =
                 Some (fst (body (s k)), st_nv (snd (body (s k)))))) \<and>
         ((\<forall>k. fst (body (s k)) = NV_NO_ERROR) \<longrightarrow>
            encryptedNonVolatileWrite aes ks nv B a 0 = None)) \<and>
      (let body = read_block aes; s = loop_state body (adapter_init ks nv buf a 0) in
         (\<forall>k. (\<forall>j<k. fst (body (s j)) = NV_NO_ERROR) \<longrightarrow>
            st_block_start (s k) = (a AND 0xfffffff0) + 16 * of_nat k \<and>
            (fst (body (s k)) \<noteq> NV_NO_ERROR \<longrightarrow>
               encryptedNonVolatileRead aes ks nv buf a 0 =
                 Some (fst (body (s k)), st_data (snd (body (s k))), st_nv (snd (body (s k)))))) \<and>
         ((\<forall>k. fst (body (s k)) = NV_NO_ERROR) \<longrightarrow>
            encryptedNonVolatileRead aes ks nv buf a 0 = None)) \<and>
      (\<forall>r nv'. encryptedNonVolatileWrite aes ks nv B a 0 = Some (r, nv') \<longrightarrow>
         r \<noteq> NV_NO_ERROR \<and>
         (\<exists>tr. nv_log nv' = nv_log nv @ tr \<and> write_order (a AND 0xfffffff0) tr \<and>
               stops_at_first_error (nv_status nv) (nv_log nv) tr r)) \<and>
      (\<forall>r buf' nv'. encryptedNonVolatileRead aes ks nv buf a 0 = Some (r, buf', nv') \<longrightarrow>
         r \<noteq> NV_NO_ERROR \<and>
         (\<exists>tr. nv_log nv' = nv_log nv @ tr \<and> read_order (a AND 0xfffffff0) tr \<and>
               stops_at_first_error (nv_status nv) (nv_log nv) tr r)) \<and>
      (nv_status nv = (\<lambda>h x. NV_NO_ERROR) \<longrightarrow>
         encryptedNonVolatileWrite aes ks nv B a 0 = None \<and>
         encryptedNonVolatileRead aes ks nv buf a 0 = None)"
    unfolding Let_def
  proof (intro impI conjI allI)
    assume top: "a = 0 \<or> 0xfffffff0 < a"
    show "adapter_block_end a 0 = 0xfffffff0" using top by (rule block_end_top)
  next
    fix k
    assume top: "a = 0 \<or> 0xfffffff0 < a"
      and ok: "\<forall>j<k. fst (write_block aes (loop_state (write_block aes) (adapter_init ks nv B a 0) j)) = NV_NO_ERROR"
    show "st_block_start (loop_state (write_block aes) (adapter_init ks nv B a 0) k) =
        (a AND 0xfffffff0) + 16 * of_nat k"
      using top ok by (rule zero_length_top_write(1))
  next
    fix k
    assume top: "a = 0 \<or> 0xfffffff0 < a"
      and ok: "\<forall>j<k. fst (write_block aes (loop_state (write_block aes) (adapter_init ks nv B a 0) j)) = NV_NO_ERROR"
      and bad: "fst (write_block aes (loop_state (write_block aes) (adapter_init ks nv B a 0) k)) \<noteq> NV_NO_ERROR"
    show "encryptedNonVolatileWrite aes ks nv B a 0 =
        Some (fst (write_block aes (loop_state (write_block aes) (adapter_init ks nv B a 0) k)),
              st_nv (snd (write_block aes (loop_state (write_block aes) (adapter_init ks nv B a 0) k))))"
      using top ok bad by (rule zero_length_top_write(2))
  next
    assume top: "a = 0 \<or> 0xfffffff0 < a"
      and ok: "\<forall>k. fst (write_block aes (loop_state (write_block aes) (adapter_init ks nv B a 0) k)) = NV_NO_ERROR"
    show "encryptedNonVolatileWrite aes ks nv B a 0 = None"
      using top ok by (rule zero_length_top_write_none)
  next
    fix k
    assume top: "a = 0 \<or> 0xfffffff0 < a"
      and ok: "\<forall>j<k. fst (read_block aes (loop_state (read_block aes) (adapter_init ks nv buf a 0) j)) = NV_NO_ERROR"
    show "st_block_start (loop_state (read_block aes) (adapter_init ks nv buf a 0) k) =
        (a AND 0xfffffff0) + 16 * of_nat k"
      using top ok by (rule zero_length_top_read(1))
  next
    fix k
    assume top: "a = 0 \<or> 0xfffffff0 < a"
      and ok: "\<forall>j<k. fst (read_block aes (loop_state (read_block aes) (adapter_init ks nv buf a 0) j)) = NV_NO_ERROR"
      and bad: "fst (read_block aes (loop_state (read_block aes) (adapter_init ks nv buf a 0) k)) \<noteq> NV_NO_ERROR"
    show "encryptedNonVolatileRead aes ks nv buf a 0 =
        Some (fst (read_block aes (loop_state (read_block aes) (adapter_init ks nv buf a 0) k)),
              st_data (snd (read_block aes (loop_state (read_block aes) (adapter_init ks nv buf a 0) k))),
              st_nv (snd (read_block aes (loop_state (read_block aes) (adapter_init ks nv buf a 0) k))))"
      using top ok bad by (rule zero_length_top_read(2))
  next
    assume top: "a = 0 \<or> 0xfffffff0 < a"
      and ok: "\<forall>k. fst (read_block aes (loop_state (read_block aes) (adapter_init ks nv buf a 0) k)) = NV_NO_ERROR"
    show "encryptedNonVolatileRead aes ks nv buf a 0 = None"
      using top ok by (rule zero_length_top_read_none)
  next
    fix r nv'
    assume top: "a = 0 \<or> 0xfffffff0 < a"
      and w: "encryptedNonVolatileWrite aes ks nv B a 0 = Some (r, nv')"
    from zero_length_top_write_trace [OF top w]
    show "r \<noteq> NV_NO_ERROR"
      and "\<exists>tr. nv_log nv' = nv_log nv @ tr \<and> write_order (a AND 0xfffffff0) tr \<and>
               stops_at_first_error (nv_status nv) (nv_log nv) tr r"
      by blast+
  next
    fix r buf' nv'
    assume top: "a = 0 \<or> 0xfffffff0 < a"
      and w: "encryptedNonVolatileRead aes ks nv buf a 0 = Some (r, buf', nv')"
    from zero_length_top_read_trace [OF top w]
    show "r \<noteq> NV_NO_ERROR"
      and "\<exists>tr. nv_log nv' = nv_log nv @ tr \<and> read_order (a AND 0xfffffff0) tr \<and>
               stops_at_first_error (nv_status nv) (nv_log nv) tr r"
      by blast+
  next
    assume top: "a = 0 \<or> 0xfffffff0 < a" and ok: "nv_status nv = (\<lambda>h x. NV_NO_ERROR)"
    show "encryptedNonVolatileWrite aes ks nv B a 0 = None"
      and "encryptedNonVolatileRead aes ks nv buf a 0 = None"
      using zero_length_top_never_failing [OF top ok] by blast+
  qed
qed

theorem zero_length_calls_witness:
  "((0x20::uint32_t) \<noteq> 0 \<and> (0x20::uint32_t) AND 0xf = 0 \<and>
    encryptedNonVolatileWrite xor_cipher example_keys ok_store [] 0x20 0 = Some (NV_NO_ERROR, ok_store) \<and>
    encryptedNonVolatileRead xor_cipher example_keys ok_store [] 0x20 0 = Some (NV_NO_ERROR, [], ok_store)) \<and>
   ((0x25::uint32_t) AND 0xf \<noteq> 0 \<and> (0x25::uint32_t) < 0xfffffff0 \<and> aes_inverts xor_cipher \<and>
    (\<exists>nv' d. encryptedNonVolatileWrite xor_cipher example_keys ok_store [] 0x25 0 = Some (NV_NO_ERROR, nv') \<and>
       nv_log nv' = [NvRead 0x20 16, NvWrite 0x20 d] \<and>
       plain_byte xor_cipher example_keys (nv_mem nv') 0x25 =
       plain_byte xor_cipher example_keys (nv_mem ok_store) 0x25) \<and>
    (\<exists>nv'. encryptedNonVolatileRead xor_cipher example_keys ok_store [] 0x25 0 = Some (NV_NO_ERROR, [], nv') \<and>
       nv_log nv' = [NvRead 0x20 16])) \<and>
   (adapter_block_end 0 0 = 0xfffffff0 \<and> nv_status ok_store = (\<lambda>h x. NV_NO_ERROR) \<and>
    encryptedNonVolatileWrite xor_cipher example_keys ok_store [] 0 0 = None \<and>
    encryptedNonVolatileRead xor_cipher example_keys ok_store [] 0 0 = None) \<and>
   ((0xfffffff0::uint32_t) < 0xfffffff5 \<and>
    fst (write_block xor_cipher (loop_state (write_block xor_cipher)
           (adapter_init example_keys (failing_store 0) [] 0xfffffff5 0) 0)) = NV_NO_ERROR \<and>
    fst (write_block xor_cipher (loop_state (write_block xor_cipher)
           (adapter_init example_keys (failing_store 0) [] 0xfffffff5 0) 1)) = NV_ERROR 1 \<and>
    st_block_start (loop_state (write_block xor_cipher)
           (adapter_init example_keys (failing_store 0) [] 0xfffffff5 0) 1) = 0 \<and>
    (\<exists>nv'. encryptedNonVolatileWrite xor_cipher example_keys (failing_store 0) [] 0xfffffff5 0 =
             Some (NV_ERROR 1, nv')))"
proof -
  note t = zero_length_calls [where aes = xor_cipher and ks = example_keys and nv = ok_store
      and B = "[]" and buf = "[]"]
  have ok: "nv_status ok_store = (\<lambda>h x. NV_NO_ERROR)" "nv_log ok_store = []"
    by (simp_all add: ok_store_def)
  have m: "(0x25::uint32_t) AND 0xfffffff0 = 0x20" by simp
  have 1: "(0x20::uint32_t) \<noteq> 0 \<and> (0x20::uint32_t) AND 0xf = 0" by simp
  have 2: "(0x25::uint32_t) AND 0xf \<noteq> 0 \<and> (0x25::uint32_t) < 0xfffffff0" by simp
  from t [where a = "0x20"] 1
  have p1: "encryptedNonVolatileWrite xor_cipher example_keys ok_store [] 0x20 0 = Some (NV_NO_ERROR, ok_store) \<and>
    encryptedNonVolatileRead xor_cipher example_keys ok_store [] 0x20 0 = Some (NV_NO_ERROR, [], ok_store)"
    by blast
  from t [where a = "0x25"] 2
  have "(\<exists>r nv'. encryptedNonVolatileWrite xor_cipher example_keys ok_store [] 0x25 0 = Some (r, nv') \<and>
         (if nv_status ok_store (nv_log ok_store) (NvRead (0x25 AND 0xfffffff0) 16) \<noteq> NV_NO_ERROR
          then r = nv_status ok_store (nv_log ok_store) (NvRead (0x25 AND 0xfffffff0) 16) \<and>
               nv_log nv' = nv_log ok_store @ [NvRead (0x25 AND 0xfffffff0) 16]
          else \<exists>d. nv_log nv' =
                     nv_log ok_store @ [NvRead (0x25 AND 0xfffffff0) 16, NvWrite (0x25 AND 0xfffffff0) d] \<and>
                   r = nv_status ok_store (nv_log ok_store @ [NvRead (0x25 AND 0xfffffff0) 16])
                         (NvWrite (0x25 AND 0xfffffff0) d)) \<and>
         (aes_inverts xor_cipher \<longrightarrow>
            (\<forall>x. plain_byte xor_cipher example_keys (nv_mem nv') x =
                 plain_byte xor_cipher example_keys (nv_mem ok_store) x))) \<and>
      (\<exists>nv'. encryptedNonVolatileRead xor_cipher example_keys ok_store [] 0x25 0 =
            Some (nv_status ok_store (nv_log ok_store) (NvRead (0x25 AND 0xfffffff0) 16), [], nv') \<and>
         nv_log nv' = nv_log ok_store @ [NvRead (0x25 AND 0xfffffff0) 16] \<and>
         nv_mem nv' = nv_mem ok_store)"
    by blast
  then have p2: "(\<exists>nv' d. encryptedNonVolatileWrite xor_cipher example_keys ok_store [] 0x25 0 = Some (NV_NO_ERROR, nv') \<and>
       nv_log nv' = [NvRead 0x20 16, NvWrite 0x20 d] \<and>
       plain_byte xor_cipher example_keys (nv_mem nv') 0x25 =
       plain_byte xor_cipher example_keys (nv_mem ok_store) 0x25) \<and>
    (\<exists>nv'. encryptedNonVolatileRead xor_cipher example_keys ok_store [] 0x25 0 = Some (NV_NO_ERROR, [], nv') \<and>
       nv_log nv' = [NvRead 0x20 16])"
    unfolding ok m using xor_cipher_inverts by auto
  have 3: "(0::uint32_t) = 0 \<or> 0xfffffff0 < (0::uint32_t)" by simp
  from t [where a = 0] ok 3
  have p3: "adapter_block_end 0 0 = 0xfffffff0 \<and>
    encryptedNonVolatileWrite xor_cipher example_keys ok_store [] 0 0 = None \<and>
    encryptedNonVolatileRead xor_cipher example_keys ok_store [] 0 0 = None"
    by blast
  let ?init = "adapter_init example_keys (failing_store 0) [] 0xfffffff5 0"
  let ?it = "loop_state (write_block xor_cipher) ?init"
  have z: "(0xfffffff0::uint32_t) + 16 = 0" by simp
  have stat: "nv_status (st_nv ?init) =
      (\<lambda>h x. if x = NvRead (0xfffffff0 + 16) 16 then NV_ERROR 1 else NV_NO_ERROR)"
    unfolding z by (simp add: adapter_init_simps failing_store_def)
  have b0: "st_block_start ?init = 0xfffffff0" by (simp add: adapter_init_simps)
  note ss = write_second_block_status [OF b0 init_offset_le stat, of xor_cipher]
  have s0: "fst (write_block xor_cipher (?it 0)) = NV_NO_ERROR" using ss(1) by simp
  have s1: "fst (write_block xor_cipher (?it 1)) = NV_ERROR 1" using ss(2) by simp
  have 4: "(0xfffffff5::uint32_t) = 0 \<or> 0xfffffff0 < (0xfffffff5::uint32_t)" by simp
  have pre: "\<forall>j<1. fst (write_block xor_cipher (?it j)) = NV_NO_ERROR" using s0 by simp
  have bad: "fst (write_block xor_cipher (?it 1)) \<noteq> NV_NO_ERROR" using s1 by simp
  from zero_length_calls [where aes = xor_cipher and ks = example_keys and nv = "failing_store 0"
      and B = "[]" and buf = "[]" and a = "0xfffffff5", unfolded Let_def] 4
  have "\<forall>k. (\<forall>j<k. fst (write_block xor_cipher (?it j)) = NV_NO_ERROR) \<longrightarrow>
            st_block_start (?it k) = (0xfffffff5 AND 0xfffffff0) + 16 * of_nat k \<and>
            (fst (write_block xor_cipher (?it k)) \<noteq> NV_NO_ERROR \<longrightarrow>
               encryptedNonVolatileWrite xor_cipher example_keys (failing_store 0) [] 0xfffffff5 0 =
                 Some (fst (write_block xor_cipher (?it k)), st_nv (snd (write_block xor_cipher (?it k)))))"
    by blast
  from this [THEN spec, of 1] pre bad
  have "st_block_start (?it 1) = (0xfffffff5 AND 0xfffffff0) + 16 * of_nat 1"
    and "encryptedNonVolatileWrite xor_cipher example_keys (failing_store 0) [] 0xfffffff5 0 =
                 Some (fst (write_block xor_cipher (?it 1)), st_nv (snd (write_block xor_cipher (?it 1))))"
    by blast+
  then have p4: "st_block_start (?it 1) = 0 \<and>
     (\<exists>nv'. encryptedNonVolatileWrite xor_cipher example_keys (failing_store 0) [] 0xfffffff5 0 =
             Some (NV_ERROR 1, nv'))"
    unfolding s1 by simp
  have 5: "(0xfffffff0::uint32_t) < 0xfffffff5" by simp
  from 1 2 p1 p2 p3 ok(1) xor_cipher_inverts 5 s0 s1 p4 show ?thesis by blast
qed

theorem zero_length_write_at_last_block:
  "encryptedNonVolatileWrite xor_cipher example_keys ok_store [] 0xfffffff1 0 = None"
proof -
  have e: "adapter_block_end 0xfffffff1 0 = 0xfffffff0"
    by (simp add: adapter_block_end_def)
  have "block_loop (write_block xor_cipher) 0xfffffff0
          (adapter_init example_keys ok_store [] 0xfffffff1 0) = None"
    by (rule write_loop_diverges) (simp_all add: adapter_init_simps ok_store_def)
  then show ?thesis by (simp add: encryptedNonVolatileWrite_def e)
qed



end
